theory Spec2Isabelle
  imports Complex_Main
begin

section \<open>Dots and Boxes: the shared rules engine and the computer opponent\<close>

text \<open>
  The embedding follows \<^verbatim>\<open>shared/src/gameLogic.ts\<close> (the rules) and the hook
  \<^verbatim>\<open>useAI\<close> (the three strategies). JavaScript numbers that hold coordinates, sizes,
  scores and player indices are modelled as \<^typ>\<open>int\<close>; the places where JavaScript
  would produce \<^verbatim>\<open>NaN\<close> or throw are named where they occur.
\<close>

subsection \<open>Template strings: decimal rendering of an integer\<close>

text \<open>
  \<^verbatim>\<open>`${x}`\<close> on an integer-valued number prints an optional minus sign and the decimal
  digits (exact for magnitudes below \<open>10\<^sup>2\<^sup>1\<close>, far above any grid coordinate).
\<close>

definition digit :: "nat \<Rightarrow> char" where
  "digit n = char_of (48 + n)"

fun show_nat :: "nat \<Rightarrow> string" where
  "show_nat n = (if n < 10 then [digit n] else show_nat (n div 10) @ [digit (n mod 10)])"

declare show_nat.simps [simp del]

definition show_int :: "int \<Rightarrow> string" where
  "show_int i = (if i < 0 then CHR ''-'' # show_nat (nat (- i)) else show_nat (nat i))"

subsection \<open>Lines and their keys\<close>

type_synonym Line = "int \<times> int \<times> int \<times> int"
type_synonym LineKey = string
type_synonym BoxKey = string
type_synonym PlayerIndex = int

fun normalizeLine :: "Line \<Rightarrow> Line" where
  "normalizeLine (x1, y1, x2, y2) =
     (if y1 < y2 \<or> (y1 = y2 \<and> x1 < x2) then (x1, y1, x2, y2) else (x2, y2, x1, y1))"

definition lineToKey :: "Line \<Rightarrow> LineKey" where
  "lineToKey line =
     (case normalizeLine line of (x1, y1, x2, y2) \<Rightarrow>
        show_int x1 @ '','' @ show_int y1 @ ''-'' @ show_int x2 @ '','' @ show_int y2)"

definition isSameLine :: "Line \<Rightarrow> Line \<Rightarrow> bool" where
  "isSameLine a b = (lineToKey a = lineToKey b)"

definition boxKey :: "int \<Rightarrow> int \<Rightarrow> BoxKey" where
  \<comment> \<open>the template \<^verbatim>\<open>`${x},${y}`\<close> used for the keys of \<^verbatim>\<open>boxes\<close>\<close>
  "boxKey x y = show_int x @ '','' @ show_int y"

subsection \<open>Validation of what a caller passes as a line\<close>

text \<open>
  At run time the \<^verbatim>\<open>line\<close> argument is any JavaScript value. \<open>NotArray\<close> is a value
  for which \<^verbatim>\<open>Array.isArray\<close> is false (\<^verbatim>\<open>null\<close>, \<^verbatim>\<open>undefined\<close>, an object);
  an array entry is either an integer-valued number or \<open>NonInt\<close>, a value for which
  \<^verbatim>\<open>Number.isInteger\<close> is false (a fraction, \<^verbatim>\<open>NaN\<close>, an infinity, a string, a
  missing entry).
\<close>

datatype jsval = IntVal int | NonInt

datatype jsline = NotArray | Arr "jsval list"

fun arr :: "Line \<Rightarrow> jsline" where
  \<comment> \<open>a well-typed \<^verbatim>\<open>Line\<close> tuple seen as the run-time array it is\<close>
  "arr (x1, y1, x2, y2) = Arr [IntVal x1, IntVal y1, IntVal x2, IntVal y2]"

fun isValidLine :: "jsline \<Rightarrow> int \<Rightarrow> bool" where
  "isValidLine (Arr [IntVal x1, IntVal y1, IntVal x2, IntVal y2]) gridSize =
     (if x1 < 0 \<or> x1 \<ge> gridSize \<or> y1 < 0 \<or> y1 \<ge> gridSize then False
      else if x2 < 0 \<or> x2 \<ge> gridSize \<or> y2 < 0 \<or> y2 \<ge> gridSize then False
      else let dx = \<bar>x2 - x1\<bar>; dy = \<bar>y2 - y1\<bar>
           in if \<not> ((dx = 1 \<and> dy = 0) \<or> (dx = 0 \<and> dy = 1)) then False else True)"
| "isValidLine _ gridSize = False"

fun coords :: "jsline \<Rightarrow> Line" where
  \<comment> \<open>the destructuring \<^verbatim>\<open>[x1, y1, x2, y2] = line\<close>; it is only read after
      \<open>isValidLine\<close> has accepted the value, so the second equation is never used\<close>
  "coords (Arr [IntVal x1, IntVal y1, IntVal x2, IntVal y2]) = (x1, y1, x2, y2)"
| "coords _ = (0, 0, 0, 0)"

definition MIN_GRID_SIZE :: int where "MIN_GRID_SIZE = 3"
definition MAX_GRID_SIZE :: int where "MAX_GRID_SIZE = 10"
definition MIN_PLAYERS :: int where "MIN_PLAYERS = 2"
definition MAX_PLAYERS :: int where "MAX_PLAYERS = 4"

definition isValidGridSize :: "int \<Rightarrow> bool" where
  "isValidGridSize gridSize = (gridSize \<ge> MIN_GRID_SIZE \<and> gridSize \<le> MAX_GRID_SIZE)"

definition isValidPlayerCount :: "int \<Rightarrow> bool" where
  "isValidPlayerCount count = (count \<ge> MIN_PLAYERS \<and> count \<le> MAX_PLAYERS)"

subsection \<open>Boxes\<close>

definition isBoxComplete :: "int \<Rightarrow> int \<Rightarrow> LineKey set \<Rightarrow> bool" where
  "isBoxComplete x y lineSet =
     (let top = lineToKey (x, y, x + 1, y);
          bottom = lineToKey (x, y + 1, x + 1, y + 1);
          left = lineToKey (x, y, x, y + 1);
          right = lineToKey (x + 1, y, x + 1, y + 1)
      in top \<in> lineSet \<and> bottom \<in> lineSet \<and> left \<in> lineSet \<and> right \<in> lineSet)"

definition findCompletedBoxes :: "Line \<Rightarrow> int \<Rightarrow> LineKey set \<Rightarrow> BoxKey list" where
  "findCompletedBoxes line gridSize lineSet =
     (case normalizeLine line of (x1, y1, x2, y2) \<Rightarrow>
        let isHorizontal = (y1 = y2); isVertical = (x1 = x2)
        in (if isVertical then
              (let topY = min y1 y2
               in (if x1 > 0 \<and> isBoxComplete (x1 - 1) topY lineSet
                   then [boxKey (x1 - 1) topY] else []) @
                  (if x1 < gridSize - 1 \<and> isBoxComplete x1 topY lineSet
                   then [boxKey x1 topY] else []))
            else []) @
           (if isHorizontal then
              (let leftX = min x1 x2
               in (if y1 > 0 \<and> isBoxComplete leftX (y1 - 1) lineSet
                   then [boxKey leftX (y1 - 1)] else []) @
                  (if y1 < gridSize - 1 \<and> isBoxComplete leftX y1 lineSet
                   then [boxKey leftX y1] else []))
            else []))"

definition countBoxSides :: "int \<Rightarrow> int \<Rightarrow> LineKey set \<Rightarrow> int" where
  "countBoxSides x y lineSet =
     (if lineToKey (x, y, x + 1, y) \<in> lineSet then 1 else 0) +
     (if lineToKey (x, y + 1, x + 1, y + 1) \<in> lineSet then 1 else 0) +
     (if lineToKey (x, y, x, y + 1) \<in> lineSet then 1 else 0) +
     (if lineToKey (x + 1, y, x + 1, y + 1) \<in> lineSet then 1 else 0)"

subsection \<open>The game state\<close>

record GameState =
  gridSize :: int
  lines :: "Line list"
  lineSet :: "LineKey list"
  boxes :: "BoxKey \<rightharpoonup> PlayerIndex"
  scores :: "int list"
  currentPlayer :: PlayerIndex
  maxPlayers :: int
  started :: bool
  gameOver :: bool
  winner :: "PlayerIndex option"

definition createInitialState :: "int \<Rightarrow> int \<Rightarrow> GameState option" where
  \<comment> \<open>\<^verbatim>\<open>Array(maxPlayers)\<close> throws a RangeError unless \<open>0 \<le> maxPlayers < 2\<^sup>3\<^sup>2\<close>:
      that is the result \<open>None\<close>\<close>
  "createInitialState gridSize' maxPlayers' =
     (if maxPlayers' < 0 \<or> maxPlayers' \<ge> 2 ^ 32 then None
      else Some \<lparr> gridSize = gridSize', lines = [], lineSet = [], boxes = Map.empty,
                  scores = replicate (nat maxPlayers') 0, currentPlayer = 0,
                  maxPlayers = maxPlayers', started = False, gameOver = False,
                  winner = None \<rparr>)"

definition totalPossibleLines :: "int \<Rightarrow> int" where
  "totalPossibleLines gridSize' = 2 * gridSize' * (gridSize' - 1)"

definition isGameOver :: "GameState \<Rightarrow> bool" where
  "isGameOver state = (int (length (lines state)) \<ge> totalPossibleLines (gridSize state))"

fun indexOf :: "int list \<Rightarrow> int \<Rightarrow> int" where
  \<comment> \<open>\<^verbatim>\<open>Array.prototype.indexOf\<close>: the first position of the value, or \<open>-1\<close>\<close>
  "indexOf [] v = - 1"
| "indexOf (x # xs) v =
     (if x = v then 0 else (let i = indexOf xs v in if i < 0 then - 1 else i + 1))"

definition determineWinner :: "int list \<Rightarrow> PlayerIndex option" where
  \<comment> \<open>on the empty array \<^verbatim>\<open>Math.max()\<close> is \<open>-\<infinity>\<close>, no entry equals it, and
      \<^verbatim>\<open>indexOf\<close> answers \<open>-1\<close>\<close>
  "determineWinner scores' =
     (if scores' = [] then Some (- 1)
      else let mx = Max (set scores');
               winners = filter (\<lambda>s. s = mx) scores'
           in if length winners > 1 then None else Some (indexOf scores' mx))"

definition jsRem :: "int \<Rightarrow> int \<Rightarrow> int" where
  \<comment> \<open>JavaScript's \<^verbatim>\<open>%\<close> on integers takes the sign of the dividend. For a divisor
      \<open>0\<close> JavaScript gives \<^verbatim>\<open>NaN\<close>, which \<^typ>\<open>int\<close> cannot hold: \<open>applyMove\<close> is
      exact only on states with \<open>maxPlayers \<noteq> 0\<close>\<close>
  "jsRem a b = sgn a * (\<bar>a\<bar> mod \<bar>b\<bar>)"

definition increment :: "int list \<Rightarrow> PlayerIndex \<Rightarrow> int list" where
  \<comment> \<open>\<^verbatim>\<open>newScores[playerIndex]++\<close>. Outside the array JavaScript stores \<^verbatim>\<open>NaN\<close>
      under the new index, which an \<^typ>\<open>int\<close> list cannot hold: the model leaves the
      list as it is there, and is exact only when the mover is an index of \<open>scores\<close>\<close>
  "increment newScores playerIndex =
     (if 0 \<le> playerIndex \<and> playerIndex < int (length newScores)
      then newScores[nat playerIndex := newScores ! nat playerIndex + 1]
      else newScores)"

fun claimBoxes ::
  "PlayerIndex \<Rightarrow> BoxKey list \<Rightarrow> (BoxKey \<rightharpoonup> PlayerIndex) \<times> int list \<times> bool
     \<Rightarrow> (BoxKey \<rightharpoonup> PlayerIndex) \<times> int list \<times> bool" where
  \<comment> \<open>the loop over \<^verbatim>\<open>completedBoxes\<close>, threading
      \<^verbatim>\<open>(newBoxes, newScores, boxCompleted)\<close>\<close>
  "claimBoxes playerIndex [] acc = acc"
| "claimBoxes playerIndex (boxKey' # rest) (newBoxes, newScores, boxCompleted) =
     (if newBoxes boxKey' = None
      then claimBoxes playerIndex rest
             (newBoxes(boxKey' \<mapsto> playerIndex), increment newScores playerIndex, True)
      else claimBoxes playerIndex rest (newBoxes, newScores, boxCompleted))"

definition applyMove :: "GameState \<Rightarrow> jsline \<Rightarrow> PlayerIndex \<Rightarrow> GameState option" where
  \<comment> \<open>\<open>None\<close> is the source's \<^verbatim>\<open>null\<close>\<close>
  "applyMove state line playerIndex =
     (if \<not> isValidLine line (gridSize state) then None
      else if gameOver state then None
      else if currentPlayer state \<noteq> playerIndex then None
      else
        let normalized = normalizeLine (coords line);
            key = lineToKey normalized
        in if key \<in> set (lineSet state) then None
           else
             let newLines = lines state @ [normalized];
                 newLineSet = lineSet state @ [key];
                 lineSetAsSet = insert key (set (lineSet state));
                 completedBoxes = findCompletedBoxes normalized (gridSize state) lineSetAsSet;
                 (newBoxes, newScores, boxCompleted) =
                    claimBoxes playerIndex completedBoxes (boxes state, scores state, False);
                 nextPlayer = (if boxCompleted then playerIndex
                               else jsRem (playerIndex + 1) (maxPlayers state));
                 totalLines = totalPossibleLines (gridSize state);
                 gameOver' = (int (length newLines) \<ge> totalLines);
                 winner' = (if gameOver' then determineWinner newScores else None)
             in Some (state \<lparr> lines := newLines, lineSet := newLineSet, boxes := newBoxes,
                              scores := newScores,
                              currentPlayer := (if gameOver' then playerIndex else nextPlayer),
                              gameOver := gameOver', winner := winner' \<rparr>))"

definition getAvailableLines :: "GameState \<Rightarrow> Line list" where
  "getAvailableLines state =
     (let lineSet' = set (lineSet state)
      in [line \<leftarrow> [(x, y, x + 1, y). y \<leftarrow> [0..gridSize state - 1], x \<leftarrow> [0..gridSize state - 2]].
            lineToKey line \<notin> lineSet'] @
         [line \<leftarrow> [(x, y, x, y + 1). y \<leftarrow> [0..gridSize state - 2], x \<leftarrow> [0..gridSize state - 1]].
            lineToKey line \<notin> lineSet'])"

definition key4 :: "Line \<Rightarrow> string" where
  \<comment> \<open>the template of \<open>lineToKey\<close>, applied to a line as it stands\<close>
  "key4 l = (case l of (x1, y1, x2, y2) \<Rightarrow>
     show_int x1 @ '','' @ show_int y1 @ ''-'' @ show_int x2 @ '','' @ show_int y2)"


subsection \<open>The computer opponent: random and greedy strategies\<close>

text \<open>
  \<^verbatim>\<open>Math.random()\<close> is the only source of randomness. A strategy that calls it takes
  the number it returned as the argument \<open>r\<close> (\<open>0 \<le> r < 1\<close>); each strategy calls it at
  most once. \<^verbatim>\<open>xs[Math.floor(Math.random() * xs.length)]\<close> is \<open>pick xs r\<close>; outside
  the array the read gives \<^verbatim>\<open>undefined\<close>, which the callers treat like \<^verbatim>\<open>null\<close>.
\<close>

definition pick :: "'a list \<Rightarrow> real \<Rightarrow> 'a option" where
  "pick xs r =
     (let i = \<lfloor>r * real (length xs)\<rfloor>
      in if 0 \<le> i \<and> i < int (length xs) then Some (xs ! nat i) else None)"

definition easyAI :: "GameState \<Rightarrow> real \<Rightarrow> Line option" where
  "easyAI state r =
     (let available = getAvailableLines state
      in if length available = 0 then None else pick available r)"

definition createsDanger :: "GameState \<Rightarrow> LineKey set \<Rightarrow> bool" where
  \<comment> \<open>the two nested loops of \<open>mediumAI\<close> that set \<^verbatim>\<open>createsDanger\<close>; the
      \<^verbatim>\<open>break\<close>s only stop the search at the first hit\<close>
  "createsDanger state testSet =
     list_ex (\<lambda>y. list_ex (\<lambda>x.
        let sides = countBoxSides x y testSet
        in sides = 3 \<and> boxes state (boxKey x y) = None)
        [0..gridSize state - 2]) [0..gridSize state - 2]"

definition mediumAI :: "GameState \<Rightarrow> real \<Rightarrow> Line option" where
  "mediumAI state r =
     (let available = getAvailableLines state
      in if length available = 0 then None
         else
           let lineSet' = set (lineSet state)
           in case find (\<lambda>line.
                     let normalized = normalizeLine line;
                         key = lineToKey normalized;
                         testSet = insert key lineSet';
                         completed = findCompletedBoxes normalized (gridSize state) testSet
                     in length completed > 0) available of
                Some line \<Rightarrow> Some line
              | None \<Rightarrow>
                  let safeMoves = filter (\<lambda>line.
                        let normalized = normalizeLine line;
                            key = lineToKey normalized;
                            testSet = insert key lineSet'
                        in \<not> createsDanger state testSet) available
                  in if length safeMoves > 0 then pick safeMoves r else pick available r)"

subsection \<open>The computer opponent: minimax with alpha-beta pruning\<close>

text \<open>
  The search works on JavaScript numbers that may be \<open>-\<infinity>\<close>, \<open>+\<infinity>\<close> or
  \<^verbatim>\<open>NaN\<close> (reading \<^verbatim>\<open>scores[aiPlayerIndex]\<close> outside the array gives
  \<^verbatim>\<open>undefined\<close>, and arithmetic on it \<^verbatim>\<open>NaN\<close>). Every comparison with \<^verbatim>\<open>NaN\<close>
  is false; \<^verbatim>\<open>Math.max\<close> and \<^verbatim>\<open>Math.min\<close> give \<^verbatim>\<open>NaN\<close> when an argument is.
\<close>

datatype jsnum = NaN | NegInf | Fin int | PosInf

fun jsLe :: "jsnum \<Rightarrow> jsnum \<Rightarrow> bool" where
  "jsLe NaN _ = False"
| "jsLe _ NaN = False"
| "jsLe NegInf _ = True"
| "jsLe _ PosInf = True"
| "jsLe (Fin a) (Fin b) = (a \<le> b)"
| "jsLe _ _ = False"

fun jsGt :: "jsnum \<Rightarrow> jsnum \<Rightarrow> bool" where
  "jsGt NaN _ = False"
| "jsGt _ NaN = False"
| "jsGt a b = (\<not> jsLe a b)"

fun jsMax :: "jsnum \<Rightarrow> jsnum \<Rightarrow> jsnum" where
  "jsMax NaN _ = NaN"
| "jsMax _ NaN = NaN"
| "jsMax a b = (if jsLe a b then b else a)"

fun jsMin :: "jsnum \<Rightarrow> jsnum \<Rightarrow> jsnum" where
  "jsMin NaN _ = NaN"
| "jsMin _ NaN = NaN"
| "jsMin a b = (if jsLe a b then a else b)"

definition evaluate :: "GameState \<Rightarrow> int \<Rightarrow> jsnum" where
  \<comment> \<open>the leaf value \<^verbatim>\<open>aiScore - opponentScore\<close>, written twice in \<open>minimax\<close>\<close>
  "evaluate state aiPlayerIndex =
     (let opponentScore =
            sum_list (map snd (filter (\<lambda>(i, s). int i \<noteq> aiPlayerIndex)
                                      (enumerate 0 (scores state))))
      in if 0 \<le> aiPlayerIndex \<and> aiPlayerIndex < int (length (scores state))
         then Fin (scores state ! nat aiPlayerIndex - opponentScore)
         else NaN)"

fun maxLoop ::
  "(GameState \<Rightarrow> jsnum \<Rightarrow> jsnum \<Rightarrow> jsnum) \<Rightarrow> GameState \<Rightarrow> Line list
     \<Rightarrow> jsnum \<Rightarrow> jsnum \<Rightarrow> jsnum \<Rightarrow> jsnum" where
  \<comment> \<open>the loop of the maximizing branch over the lines still to visit; \<open>search\<close> is
      the recursive call on the child, one ply lower\<close>
  "maxLoop search state [] alpha beta maxEval = maxEval"
| "maxLoop search state (line # rest) alpha beta maxEval =
     (case applyMove state (arr (normalizeLine line)) (currentPlayer state) of
        None \<Rightarrow> maxLoop search state rest alpha beta maxEval
      | Some newState \<Rightarrow>
          let eval' = search newState alpha beta;
              maxEval' = jsMax maxEval eval';
              alpha' = jsMax alpha eval'
          in if jsLe beta alpha' then maxEval'
             else maxLoop search state rest alpha' beta maxEval')"

fun minLoop ::
  "(GameState \<Rightarrow> jsnum \<Rightarrow> jsnum \<Rightarrow> jsnum) \<Rightarrow> GameState \<Rightarrow> Line list
     \<Rightarrow> jsnum \<Rightarrow> jsnum \<Rightarrow> jsnum \<Rightarrow> jsnum" where
  "minLoop search state [] alpha beta minEval = minEval"
| "minLoop search state (line # rest) alpha beta minEval =
     (case applyMove state (arr (normalizeLine line)) (currentPlayer state) of
        None \<Rightarrow> minLoop search state rest alpha beta minEval
      | Some newState \<Rightarrow>
          let eval' = search newState alpha beta;
              minEval' = jsMin minEval eval';
              beta' = jsMin beta eval'
          in if jsLe beta' alpha then minEval'
             else minLoop search state rest alpha beta' minEval')"

primrec minimax :: "GameState \<Rightarrow> nat \<Rightarrow> jsnum \<Rightarrow> jsnum \<Rightarrow> bool \<Rightarrow> int \<Rightarrow> jsnum" where
  \<comment> \<open>\<open>depth\<close> is a natural number: \<open>hardAI\<close>, the only caller, passes
      \<open>maxDepth - 1\<close> with \<open>maxDepth \<ge> 1\<close>, and each call passes \<open>depth - 1\<close>
      with \<open>depth \<noteq> 0\<close>\<close>
  "minimax state 0 alpha beta isMaximizing aiPlayerIndex = evaluate state aiPlayerIndex"
| "minimax state (Suc depth) alpha beta isMaximizing aiPlayerIndex =
     (if gameOver state then evaluate state aiPlayerIndex
      else
        let available = getAvailableLines state
        in if length available = 0 then evaluate state aiPlayerIndex
           else if isMaximizing \<or> currentPlayer state = aiPlayerIndex
           then maxLoop (\<lambda>newState alpha' beta'.
                    minimax newState depth alpha' beta'
                      (currentPlayer newState = aiPlayerIndex) aiPlayerIndex)
                  state available alpha beta NegInf
           else minLoop (\<lambda>newState alpha' beta'.
                    minimax newState depth alpha' beta'
                      (currentPlayer newState = aiPlayerIndex) aiPlayerIndex)
                  state available alpha beta PosInf)"

fun rootLoop ::
  "GameState \<Rightarrow> int \<Rightarrow> nat \<Rightarrow> Line list \<Rightarrow> jsnum \<Rightarrow> Line option \<Rightarrow> Line option" where
  \<comment> \<open>the loop of \<open>hardAI\<close> over the lines still to visit, threading
      \<^verbatim>\<open>(bestScore, bestMove)\<close>\<close>
  "rootLoop state aiPlayerIndex maxDepth [] bestScore bestMove = bestMove"
| "rootLoop state aiPlayerIndex maxDepth (line # rest) bestScore bestMove =
     (case applyMove state (arr (normalizeLine line)) (currentPlayer state) of
        None \<Rightarrow> rootLoop state aiPlayerIndex maxDepth rest bestScore bestMove
      | Some newState \<Rightarrow>
          let score = minimax newState (maxDepth - 1) NegInf PosInf False aiPlayerIndex
          in if jsGt score bestScore
             then rootLoop state aiPlayerIndex maxDepth rest score (Some line)
             else rootLoop state aiPlayerIndex maxDepth rest bestScore bestMove)"

definition hardAI :: "GameState \<Rightarrow> int \<Rightarrow> Line option" where
  "hardAI state aiPlayerIndex =
     (let available = getAvailableLines state
      in if length available = 0 then None
         else
           let maxDepth = (if length available \<le> 12 then length available else 6)
           in rootLoop state aiPlayerIndex maxDepth available NegInf None)"

subsection \<open>The specification's vocabulary, for comparison with the code\<close>

text \<open>
  The definitions of this subsection are not translations of source functions: they
  write down notions that the specification names and the source does not.
\<close>

datatype reason = GeometryInvalid | OutOfTurn | EdgeAlreadyDrawn | GameAlreadyOver

definition rejectionReason :: "GameState \<Rightarrow> jsline \<Rightarrow> PlayerIndex \<Rightarrow> reason option" where
  \<comment> \<open>the tag that the specification's error taxonomy gives a call of \<open>applyMove\<close>
      (\<open>None\<close>: no precondition fails), the classes taken in the order in which the
      source tests them\<close>
  "rejectionReason state line playerIndex =
     (if \<not> isValidLine line (gridSize state) then Some GeometryInvalid
      else if gameOver state then Some GameAlreadyOver
      else if currentPlayer state \<noteq> playerIndex then Some OutOfTurn
      else if lineToKey (normalizeLine (coords line)) \<in> set (lineSet state)
        then Some EdgeAlreadyDrawn
      else None)"

definition allLines :: "int \<Rightarrow> Line list" where
  \<comment> \<open>every line of the grid, in the order in which the two loops of
      \<open>getAvailableLines\<close> visit them\<close>
  "allLines g =
     [(x, y, x + 1, y). y \<leftarrow> [0..g - 1], x \<leftarrow> [0..g - 2]] @
     [(x, y, x, y + 1). y \<leftarrow> [0..g - 2], x \<leftarrow> [0..g - 1]]"

definition boxSides :: "int \<Rightarrow> int \<Rightarrow> LineKey set" where
  \<comment> \<open>the keys of the four edges of the box whose top-left dot is \<open>(x, y)\<close>\<close>
  "boxSides x y =
     {lineToKey (x, y, x + 1, y), lineToKey (x, y + 1, x + 1, y + 1),
      lineToKey (x, y, x, y + 1), lineToKey (x + 1, y, x + 1, y + 1)}"

inductive reaches :: "GameState \<Rightarrow> GameState \<Rightarrow> bool" where
  \<comment> \<open>\<open>reaches s s'\<close>: a sequence of successful \<open>applyMove\<close> calls leads from \<open>s\<close>
      to \<open>s'\<close>\<close>
  here: "reaches s s"
| move: "reaches s s' \<Longrightarrow> applyMove s' line p = Some s'' \<Longrightarrow> reaches s s''"

definition reachable :: "int \<Rightarrow> int \<Rightarrow> GameState \<Rightarrow> bool" where
  \<comment> \<open>the states of a game created by \<open>createInitialState gridSize playerCount\<close>\<close>
  "reachable g n s = (\<exists>s0. createInitialState g n = Some s0 \<and> reaches s0 s)"

definition startGame :: "GameState \<Rightarrow> GameState" where
  \<comment> \<open>the one write to a game state outside \<open>applyMove\<close>: the server's
      \<^verbatim>\<open>room.state.started = true\<close> when the room's creator starts the game\<close>
  "startGame state = state \<lparr> started := True \<rparr>"

inductive plays :: "GameState \<Rightarrow> GameState \<Rightarrow> bool" where
  \<comment> \<open>\<open>plays s s'\<close>: successful \<open>applyMove\<close> calls lead from \<open>s\<close> to \<open>s'\<close>, the game
      being started at any moment before, between or after them\<close>
  here: "plays s s"
| start: "plays s s' \<Longrightarrow> plays s (startGame s')"
| move: "plays s s' \<Longrightarrow> applyMove s' line p = Some s'' \<Longrightarrow> plays s s''"

definition inGame :: "int \<Rightarrow> int \<Rightarrow> GameState \<Rightarrow> bool" where
  \<comment> \<open>the states of a game created by \<open>createInitialState gridSize playerCount\<close>,
      started or not\<close>
  "inGame g n s = (\<exists>s0. createInitialState g n = Some s0 \<and> plays s0 s)"

definition wellFormed :: "int \<Rightarrow> int \<Rightarrow> GameState \<Rightarrow> bool" where
  \<comment> \<open>what every reachable state satisfies (proved below, used as the induction
      invariant)\<close>
  "wellFormed g n s =
     (gridSize s = g \<and> maxPlayers s = n \<and> length (scores s) = nat n \<and>
      0 \<le> currentPlayer s \<and> currentPlayer s < n \<and>
      lineSet s = map lineToKey (lines s) \<and> distinct (lineSet s) \<and>
      set (lines s) \<subseteq> set (allLines g) \<and>
      finite (dom (boxes s)) \<and>
      dom (boxes s) = {k. \<exists>x y. k = boxKey x y \<and> isBoxComplete x y (set (lineSet s))} \<and>
      sum_list (scores s) = int (card (dom (boxes s))) \<and>
      (gameOver s \<longleftrightarrow> int (length (lines s)) = totalPossibleLines g))"

definition completedBy :: "GameState \<Rightarrow> jsline \<Rightarrow> BoxKey list" where
  \<comment> \<open>names the value that \<open>applyMove\<close> binds to \<^verbatim>\<open>completedBoxes\<close>\<close>
  "completedBy state line =
     findCompletedBoxes (normalizeLine (coords line)) (gridSize state)
       (insert (lineToKey (normalizeLine (coords line))) (set (lineSet state)))"

definition newlyCompleted :: "GameState \<Rightarrow> jsline \<Rightarrow> BoxKey list" where
  \<comment> \<open>the boxes a move newly completes: found complete, and without an owner before\<close>
  "newlyCompleted state line = filter (\<lambda>k. boxes state k = None) (completedBy state line)"

fun playMoves :: "GameState \<Rightarrow> Line list \<Rightarrow> GameState option" where
  \<comment> \<open>a sequence of moves, each made by the player whose turn it is (\<open>None\<close> as soon as
      one of them is rejected)\<close>
  "playMoves s [] = Some s"
| "playMoves s (l # ls) =
     (case applyMove s (arr l) (currentPlayer s) of
        None \<Rightarrow> None
      | Some s' \<Rightarrow> playMoves s' ls)"

definition leavesDanger :: "GameState \<Rightarrow> bool" where
  \<comment> \<open>some box of the grid has exactly three drawn edges and no owner\<close>
  "leavesDanger state =
     list_ex (\<lambda>y. list_ex (\<lambda>x.
        countBoxSides x y (set (lineSet state)) = 3 \<and> boxes state (boxKey x y) = None)
        [0..gridSize state - 2]) [0..gridSize state - 2]"

definition safeMove :: "GameState \<Rightarrow> Line \<Rightarrow> bool" where
  \<comment> \<open>a safe move: its application by the current player is accepted and leaves no
      unowned box at exactly three drawn edges\<close>
  "safeMove state line =
     (case applyMove state (arr line) (currentPlayer state) of
        None \<Rightarrow> False
      | Some state' \<Rightarrow> \<not> leavesDanger state')"

definition rootValues :: "GameState \<Rightarrow> int \<Rightarrow> (Line \<times> jsnum) list" where
  \<comment> \<open>the moves that \<open>hardAI\<close> tries, in the order of \<open>getAvailableLines\<close>, each with
      the search value of the child it leads to\<close>
  "rootValues state aiPlayerIndex =
     (let available = getAvailableLines state;
          maxDepth = (if length available \<le> 12 then length available else 6)
      in List.map_filter (\<lambda>line.
           case applyMove state (arr (normalizeLine line)) (currentPlayer state) of
             None \<Rightarrow> None
           | Some newState \<Rightarrow>
               Some (line, minimax newState (maxDepth - 1) NegInf PosInf False aiPlayerIndex))
         available)"

definition childValues :: "GameState \<Rightarrow> int \<Rightarrow> nat \<Rightarrow> (Line \<times> jsnum) list" where
  \<comment> \<open>the available moves, each with the value that \<open>minimax\<close> gives its child when
      called with the given depth and the full window, as \<open>hardAI\<close> calls it\<close>
  "childValues state aiPlayerIndex depth =
     List.map_filter (\<lambda>line.
       case applyMove state (arr (normalizeLine line)) (currentPlayer state) of
         None \<Rightarrow> None
       | Some newState \<Rightarrow>
           Some (line, minimax newState depth NegInf PosInf False aiPlayerIndex))
     (getAvailableLines state)"

fun firstBest :: "(Line \<times> jsnum) list \<Rightarrow> jsnum \<Rightarrow> Line option \<Rightarrow> Line option" where
  \<comment> \<open>the selection of \<open>hardAI\<close> on values already computed: a move replaces the best
      one so far only when its value is strictly greater\<close>
  "firstBest [] bestScore bestMove = bestMove"
| "firstBest ((line, score) # rest) bestScore bestMove =
     (if jsGt score bestScore then firstBest rest score (Some line)
      else firstBest rest bestScore bestMove)"

subsection \<open>Keys are injective\<close>

lemma of_char_digit: "n < 10 \<Longrightarrow> (of_char (digit n) :: nat) = 48 + n"
proof -
  assume "n < 10"
  then have "(48 + n) mod 256 = 48 + n" by simp
  moreover have "(of_char (digit n) :: nat) = (48 + n) mod 256"
    unfolding digit_def by (rule of_char_of)
  ultimately show ?thesis by (simp only:)
qed

lemma digit_inj:
  assumes "a < 10" and "b < 10" and "digit a = digit b"
  shows "a = b"
proof -
  from assms(3) have "(of_char (digit a) :: nat) = of_char (digit b)"
    by (rule arg_cong)
  then have "48 + a = 48 + b"
    unfolding of_char_digit [OF assms(1)] of_char_digit [OF assms(2)] .
  then show ?thesis by (rule add_left_imp_eq)
qed

lemma show_nat_small: "n < 10 \<Longrightarrow> show_nat n = [digit n]"
  by (subst show_nat.simps) simp

lemma show_nat_large:
  "\<not> n < 10 \<Longrightarrow> show_nat n = show_nat (n div 10) @ [digit (n mod 10)]"
  by (subst show_nat.simps) simp

lemma show_nat_nonempty: "show_nat n \<noteq> []"
  by (subst show_nat.simps) simp

lemma show_nat_inj: "show_nat n = show_nat m \<Longrightarrow> n = m"
proof (induction n arbitrary: m rule: show_nat.induct)
  case (1 n)
  show ?case
  proof (cases "n < 10")
    case True
    have "m < 10"
    proof (rule ccontr)
      assume "\<not> m < 10"
      with True "1.prems" show_nat_nonempty [of "m div 10"] show False
        by (simp add: show_nat_small show_nat_large)
    qed
    with True "1.prems" show ?thesis
      by (simp add: show_nat_small digit_inj)
  next
    case False
    have m10: "\<not> m < 10"
    proof
      assume "m < 10"
      with False "1.prems" show_nat_nonempty [of "n div 10"] show False
        by (simp add: show_nat_small show_nat_large)
    qed
    from False m10 "1.prems" have a: "show_nat (n div 10) = show_nat (m div 10)"
      and b: "digit (n mod 10) = digit (m mod 10)"
      by (simp_all add: show_nat_large)
    from "1.IH" [OF False a] have "n div 10 = m div 10" .
    moreover from b have "n mod 10 = m mod 10" by (simp add: digit_inj)
    ultimately show ?thesis by (metis div_mult_mod_eq)
  qed
qed

lemma show_nat_chars: "c \<in> set (show_nat n) \<Longrightarrow> \<exists>d<10. c = digit d"
proof (induction n rule: show_nat.induct)
  case (1 n)
  show ?case
  proof (cases "n < 10")
    case True
    with "1.prems" show ?thesis by (auto simp: show_nat_small)
  next
    case False
    with "1.prems" have "c \<in> set (show_nat (n div 10)) \<or> c = digit (n mod 10)"
      by (auto simp: show_nat_large)
    with "1.IH" [OF False] show ?thesis by (metis mod_less_divisor zero_less_numeral)
  qed
qed

lemma comma_not_in_show_nat: "CHR '','' \<notin> set (show_nat n)"
proof
  assume "CHR '','' \<in> set (show_nat n)"
  then obtain d where "d < 10" "CHR '','' = digit d" using show_nat_chars by blast
  then have "(of_char (CHR '','') :: nat) = 48 + d" using of_char_digit [of d] by (simp only:)
  then show False by simp
qed

lemma minus_not_in_show_nat: "CHR ''-'' \<notin> set (show_nat n)"
proof
  assume "CHR ''-'' \<in> set (show_nat n)"
  then obtain d where "d < 10" "CHR ''-'' = digit d" using show_nat_chars by blast
  then have "(of_char (CHR ''-'') :: nat) = 48 + d" using of_char_digit [of d] by (simp only:)
  then show False by simp
qed

lemma show_nat_append_no_dash: "show_nat k @ zs \<noteq> CHR ''-'' # r"
proof
  assume eq: "show_nat k @ zs = CHR ''-'' # r"
  obtain x xs where k: "show_nat k = x # xs"
    using show_nat_nonempty [of k] by (cases "show_nat k") auto
  with eq have "x = CHR ''-''" by simp
  with k have "CHR ''-'' \<in> set (show_nat k)" by simp
  with minus_not_in_show_nat show False by blast
qed

lemma show_nat_no_dash: "show_nat k \<noteq> CHR ''-'' # r"
  using show_nat_append_no_dash [of k "[]" r] by simp

lemma show_int_inj: "show_int a = show_int b \<Longrightarrow> a = b"
proof -
  assume eq: "show_int a = show_int b"
  show ?thesis
  proof (cases "a < 0")
    case True
    show ?thesis
    proof (cases "b < 0")
      case b: True
      with True eq have "show_nat (nat (- a)) = show_nat (nat (- b))"
        by (simp add: show_int_def)
      then have "nat (- a) = nat (- b)" by (rule show_nat_inj)
      with True b show ?thesis by simp
    next
      case b: False
      with True eq have "show_nat (nat b) = CHR ''-'' # show_nat (nat (- a))"
        by (simp add: show_int_def)
      with show_nat_no_dash show ?thesis by blast
    qed
  next
    case False
    show ?thesis
    proof (cases "b < 0")
      case b: True
      with False eq have "show_nat (nat a) = CHR ''-'' # show_nat (nat (- b))"
        by (simp add: show_int_def)
      with show_nat_no_dash show ?thesis by blast
    next
      case b: False
      with False eq have "show_nat (nat a) = show_nat (nat b)"
        by (simp add: show_int_def)
      then have "nat a = nat b" by (rule show_nat_inj)
      with False b show ?thesis by simp
    qed
  qed
qed

lemma comma_not_in_show_int: "CHR '','' \<notin> set (show_int a)"
  using comma_not_in_show_nat by (simp add: show_int_def)

lemma split_at_first:
  "c \<notin> set xs \<Longrightarrow> c \<notin> set ys \<Longrightarrow> xs @ c # r = ys @ c # r' \<Longrightarrow> xs = ys \<and> r = r'"
proof (induction xs arbitrary: ys)
  case Nil
  then show ?case by (cases ys) auto
next
  case (Cons x xs)
  then show ?case by (cases ys) auto
qed

lemma split_at_last:
  assumes "c \<notin> set r" and "c \<notin> set r'" and "xs @ c # r = ys @ c # r'"
  shows "xs = ys \<and> r = r'"
proof -
  from assms(3) have "rev (xs @ c # r) = rev (ys @ c # r')" by (rule arg_cong)
  then have "rev r @ c # rev xs = rev r' @ c # rev ys" by simp
  with assms(1,2) have "rev r = rev r' \<and> rev xs = rev ys"
    by (intro split_at_first) simp_all
  then show ?thesis by simp
qed

lemma boxKey_inj: "boxKey x y = boxKey x' y' \<Longrightarrow> x = x' \<and> y = y'"
proof -
  assume "boxKey x y = boxKey x' y'"
  then have "show_int x @ CHR '','' # show_int y = show_int x' @ CHR '','' # show_int y'"
    by (simp add: boxKey_def)
  then have "show_int x = show_int x' \<and> show_int y = show_int y'"
    by (rule split_at_first [OF comma_not_in_show_int comma_not_in_show_int])
  then show ?thesis by (simp add: show_int_inj)
qed

lemma boxKey_eq_iff [simp]: "boxKey x y = boxKey x' y' \<longleftrightarrow> x = x' \<and> y = y'"
  using boxKey_inj by blast

lemma dash_split:
  assumes "show_int a @ CHR ''-'' # show_int b = show_int a' @ CHR ''-'' # show_int b'"
  shows "a = a' \<and> b = b'"
proof -
  have nat_case: "show_nat k @ CHR ''-'' # r = show_nat k' @ CHR ''-'' # r'
      \<Longrightarrow> show_nat k = show_nat k' \<and> r = r'" for k k' r r'
    by (rule split_at_first [OF minus_not_in_show_nat minus_not_in_show_nat])
  have "show_int a = show_int a' \<and> show_int b = show_int b'"
  proof (cases "a < 0")
    case True
    show ?thesis
    proof (cases "a' < 0")
      case a': True
      with True assms
      have "show_nat (nat (- a)) @ CHR ''-'' # show_int b
          = show_nat (nat (- a')) @ CHR ''-'' # show_int b'"
        by (simp add: show_int_def)
      from nat_case [OF this] True a' show ?thesis by (simp add: show_int_def)
    next
      case a': False
      with True assms
      have "show_nat (nat a') @ CHR ''-'' # show_int b'
          = CHR ''-'' # (show_nat (nat (- a)) @ CHR ''-'' # show_int b)"
        by (simp add: show_int_def)
      with show_nat_append_no_dash show ?thesis by blast
    qed
  next
    case False
    show ?thesis
    proof (cases "a' < 0")
      case a': True
      with False assms
      have "show_nat (nat a) @ CHR ''-'' # show_int b
          = CHR ''-'' # (show_nat (nat (- a')) @ CHR ''-'' # show_int b')"
        by (simp add: show_int_def)
      with show_nat_append_no_dash show ?thesis by blast
    next
      case a': False
      with False assms
      have "show_nat (nat a) @ CHR ''-'' # show_int b
          = show_nat (nat a') @ CHR ''-'' # show_int b'"
        by (simp add: show_int_def)
      from nat_case [OF this] False a' show ?thesis by (simp add: show_int_def)
    qed
  qed
  then show ?thesis by (simp add: show_int_inj)
qed

lemma key4_inj: "key4 l = key4 l' \<Longrightarrow> l = l'"
proof -
  obtain x1 y1 x2 y2 where l: "l = (x1, y1, x2, y2)" by (cases l) auto
  obtain x1' y1' x2' y2' where l': "l' = (x1', y1', x2', y2')" by (cases l') auto
  assume "key4 l = key4 l'"
  with l l' have e: "show_int x1 @ CHR '','' # (show_int y1 @ CHR ''-'' # show_int x2 @ CHR '','' # show_int y2)
     = show_int x1' @ CHR '','' # (show_int y1' @ CHR ''-'' # show_int x2' @ CHR '','' # show_int y2')"
    by (simp add: key4_def)
  have 1: "show_int x1 = show_int x1'"
    and r: "show_int y1 @ CHR ''-'' # show_int x2 @ CHR '','' # show_int y2
       = show_int y1' @ CHR ''-'' # show_int x2' @ CHR '','' # show_int y2'"
    using split_at_first [OF comma_not_in_show_int comma_not_in_show_int e] by simp_all
  from r have "(show_int y1 @ CHR ''-'' # show_int x2) @ CHR '','' # show_int y2
       = (show_int y1' @ CHR ''-'' # show_int x2') @ CHR '','' # show_int y2'" by simp
  from split_at_last [OF comma_not_in_show_int comma_not_in_show_int this]
  have m: "show_int y1 @ CHR ''-'' # show_int x2 = show_int y1' @ CHR ''-'' # show_int x2'"
    and 4: "show_int y2 = show_int y2'" by simp_all
  from dash_split [OF m] 1 4 l l' show ?thesis by (simp add: show_int_inj)
qed

lemma lineToKey_eq_iff: "lineToKey a = lineToKey b \<longleftrightarrow> normalizeLine a = normalizeLine b"
proof
  have k: "lineToKey l = key4 (normalizeLine l)" for l
    by (simp add: lineToKey_def key4_def)
  assume "lineToKey a = lineToKey b"
  then have "key4 (normalizeLine a) = key4 (normalizeLine b)" by (simp only: k)
  then show "normalizeLine a = normalizeLine b" by (rule key4_inj)
next
  assume "normalizeLine a = normalizeLine b"
  then show "lineToKey a = lineToKey b" by (simp add: lineToKey_def)
qed

subsection \<open>Rejection\<close>

lemma applyMove_None_iff:
  "applyMove state line p = None \<longleftrightarrow>
     (gameOver state \<or> currentPlayer state \<noteq> p \<or> \<not> isValidLine line (gridSize state)
      \<or> lineToKey (normalizeLine (coords line)) \<in> set (lineSet state))"
  by (auto simp: applyMove_def Let_def split: prod.splits)

lemma isValidLine_iff:
  "isValidLine line g \<longleftrightarrow>
     (\<exists>x1 y1 x2 y2. line = Arr [IntVal x1, IntVal y1, IntVal x2, IntVal y2]
        \<and> 0 \<le> x1 \<and> x1 < g \<and> 0 \<le> y1 \<and> y1 < g \<and> 0 \<le> x2 \<and> x2 < g \<and> 0 \<le> y2 \<and> y2 < g
        \<and> \<bar>x2 - x1\<bar> + \<bar>y2 - y1\<bar> = 1)"
proof (induction line g rule: isValidLine.induct)
  case (1 x1 y1 x2 y2 gridSize)
  show ?case by (simp add: Let_def) presburger
qed simp_all

lemma normalizeLine_reverse: "normalizeLine (x2, y2, x1, y1) = normalizeLine (x1, y1, x2, y2)"
  by auto

text \<open>
  Claim C1. \<open>applyMove\<close> answers \<^verbatim>\<open>null\<close> exactly when the game is over, or the
  mover is not the current player, or the line is not valid for the grid, or the key of
  the normalized line is already drawn; otherwise it answers a successor state. It is a
  total function of its arguments: nothing is thrown and the state passed in is not
  changed. A line is valid exactly when it is an array of four integers inside the grid
  whose end points are one unit apart along one axis, and a line drawn in the reverse
  direction has the same key.
\<close>

theorem applyMove_rejects_exactly:
  "(applyMove state line p = None \<longleftrightarrow>
      gameOver state \<or> currentPlayer state \<noteq> p \<or> \<not> isValidLine line (gridSize state)
      \<or> lineToKey (normalizeLine (coords line)) \<in> set (lineSet state))
   \<and> (applyMove state line p \<noteq> None \<longleftrightarrow> (\<exists>state'. applyMove state line p = Some state'))
   \<and> (isValidLine line (gridSize state) \<longleftrightarrow>
        (\<exists>x1 y1 x2 y2. line = Arr [IntVal x1, IntVal y1, IntVal x2, IntVal y2]
           \<and> 0 \<le> x1 \<and> x1 < gridSize state \<and> 0 \<le> y1 \<and> y1 < gridSize state
           \<and> 0 \<le> x2 \<and> x2 < gridSize state \<and> 0 \<le> y2 \<and> y2 < gridSize state
           \<and> \<bar>x2 - x1\<bar> + \<bar>y2 - y1\<bar> = 1))
   \<and> lineToKey (normalizeLine (coords (arr (x2, y2, x1, y1))))
       = lineToKey (normalizeLine (coords (arr (x1, y1, x2, y2))))"
proof (intro conjI)
  show "lineToKey (normalizeLine (coords (arr (x2, y2, x1, y1))))
       = lineToKey (normalizeLine (coords (arr (x1, y1, x2, y2))))"
    using normalizeLine_reverse [of x2 y2 x1 y1] by simp
qed (rule applyMove_None_iff, blast, rule isValidLine_iff)

theorem applyMove_rejects_exactly_witness:
  "applyMove (the (createInitialState 3 2)) (Arr [IntVal 0, IntVal 0, IntVal 1, IntVal 1]) 0 = None
   \<and> applyMove (the (createInitialState 3 2)) (Arr [IntVal 0, IntVal 0, IntVal 2, IntVal 0]) 0 = None
   \<and> applyMove (the (createInitialState 3 2)) (Arr [IntVal 0, IntVal 0, IntVal 1]) 0 = None
   \<and> applyMove (the (createInitialState 3 2)) (Arr [NonInt, IntVal 0, NonInt, IntVal 0]) 0 = None
   \<and> applyMove (the (createInitialState 3 2)) NotArray 0 = None
   \<and> applyMove (the (createInitialState 3 2)) (Arr [IntVal 0, IntVal 0, IntVal 1, IntVal 0]) 1 = None
   \<and> applyMove (the (createInitialState 3 2)) (Arr [IntVal 0, IntVal 0, IntVal 1, IntVal 0]) 0 \<noteq> None"
  using applyMove_rejects_exactly [of "the (createInitialState 3 2)"
          "Arr [IntVal 0, IntVal 0, IntVal 1, IntVal 1]" 0]
        applyMove_rejects_exactly [of "the (createInitialState 3 2)"
          "Arr [IntVal 0, IntVal 0, IntVal 2, IntVal 0]" 0]
        applyMove_rejects_exactly [of "the (createInitialState 3 2)"
          "Arr [IntVal 0, IntVal 0, IntVal 1]" 0]
        applyMove_rejects_exactly [of "the (createInitialState 3 2)"
          "Arr [NonInt, IntVal 0, NonInt, IntVal 0]" 0]
        applyMove_rejects_exactly [of "the (createInitialState 3 2)" NotArray 0]
        applyMove_rejects_exactly [of "the (createInitialState 3 2)"
          "Arr [IntVal 0, IntVal 0, IntVal 1, IntVal 0]" 1]
        applyMove_rejects_exactly [of "the (createInitialState 3 2)"
          "Arr [IntVal 0, IntVal 0, IntVal 1, IntVal 0]" 0]
  by (simp add: createInitialState_def)

subsection \<open>Rejections carry no reason\<close>

lemma rejectionReason_None_iff:
  "rejectionReason state line p = None \<longleftrightarrow> applyMove state line p \<noteq> None"
  by (simp add: rejectionReason_def applyMove_None_iff)

text \<open>
  Claim C6, as amended. A rejected call answers the single value \<^verbatim>\<open>null\<close>,
  whichever of the four classes of the taxonomy it falls in: any two rejected calls give
  the same result, so the result carries no reason. (The claim as stated, that the
  result distinguishes the four classes, fails: a diagonal line and a move out of turn
  are answered alike.)
\<close>

theorem rejection_is_null:
  "rejectionReason state line p = Some r \<Longrightarrow> rejectionReason state' line' p' = Some r'
     \<Longrightarrow> applyMove state line p = None \<and> applyMove state' line' p' = applyMove state line p"
  using rejectionReason_None_iff [of state line p] rejectionReason_None_iff [of state' line' p']
  by auto

theorem rejection_is_null_witness:
  "rejectionReason (the (createInitialState 3 2)) (Arr [IntVal 0, IntVal 0, IntVal 1, IntVal 1]) 0
      = Some GeometryInvalid
   \<and> rejectionReason (the (createInitialState 3 2)) (Arr [IntVal 0, IntVal 0, IntVal 1, IntVal 0]) 1
      = Some OutOfTurn
   \<and> applyMove (the (createInitialState 3 2)) (Arr [IntVal 0, IntVal 0, IntVal 1, IntVal 1]) 0 = None
   \<and> applyMove (the (createInitialState 3 2)) (Arr [IntVal 0, IntVal 0, IntVal 1, IntVal 0]) 1
      = applyMove (the (createInitialState 3 2)) (Arr [IntVal 0, IntVal 0, IntVal 1, IntVal 1]) 0"
proof -
  have a: "rejectionReason (the (createInitialState 3 2))
      (Arr [IntVal 0, IntVal 0, IntVal 1, IntVal 1]) 0 = Some GeometryInvalid"
    by (simp add: rejectionReason_def createInitialState_def)
  have b: "rejectionReason (the (createInitialState 3 2))
      (Arr [IntVal 0, IntVal 0, IntVal 1, IntVal 0]) 1 = Some OutOfTurn"
    by (simp add: rejectionReason_def createInitialState_def)
  from rejection_is_null [OF a b] a b show ?thesis by simp
qed

theorem rejection_reason_counterexample:
  "rejectionReason (the (createInitialState 3 2)) (Arr [IntVal 0, IntVal 0, IntVal 1, IntVal 1]) 0
      = Some GeometryInvalid
   \<and> rejectionReason (the (createInitialState 3 2)) (Arr [IntVal 0, IntVal 0, IntVal 1, IntVal 0]) 1
      = Some OutOfTurn
   \<and> applyMove (the (createInitialState 3 2)) (Arr [IntVal 0, IntVal 0, IntVal 1, IntVal 1]) 0
      = applyMove (the (createInitialState 3 2)) (Arr [IntVal 0, IntVal 0, IntVal 1, IntVal 0]) 1"
  by (simp add: rejectionReason_def applyMove_def createInitialState_def)

subsection \<open>The started flag\<close>

text \<open>
  Claim C10. \<open>applyMove\<close> does not read the \<open>started\<close> flag: setting the flag to
  any value changes the result only in that flag. In particular, in a state that has not
  been started, a move that meets the four preconditions is accepted, and the successor
  is not started either.
\<close>

theorem applyMove_ignores_started:
  "applyMove (state \<lparr> started := b \<rparr>) line p
      = map_option (\<lambda>state'. state' \<lparr> started := b \<rparr>) (applyMove state line p)
   \<and> (\<not> started state \<and> \<not> gameOver state \<and> currentPlayer state = p
        \<and> isValidLine line (gridSize state)
        \<and> lineToKey (normalizeLine (coords line)) \<notin> set (lineSet state)
      \<longrightarrow> (\<exists>state'. applyMove state line p = Some state' \<and> \<not> started state'))"
  by (simp add: applyMove_def Let_def split: prod.splits)

theorem applyMove_ignores_started_witness:
  "(\<exists>state'. applyMove (the (createInitialState 3 2)) (Arr [IntVal 0, IntVal 0, IntVal 1, IntVal 0]) 0
        = Some state' \<and> \<not> started state')
   \<and> applyMove ((the (createInitialState 3 2)) \<lparr> started := True \<rparr>)
         (Arr [IntVal 0, IntVal 0, IntVal 1, IntVal 0]) 0
       = map_option (\<lambda>state'. state' \<lparr> started := True \<rparr>)
           (applyMove (the (createInitialState 3 2)) (Arr [IntVal 0, IntVal 0, IntVal 1, IntVal 0]) 0)"
  using applyMove_ignores_started [where state = "the (createInitialState 3 2)" and b = True
          and line = "Arr [IntVal 0, IntVal 0, IntVal 1, IntVal 0]" and p = 0]
  by (simp add: createInitialState_def)

subsection \<open>The lines of a grid\<close>

lemma getAvailableLines_filter:
  "getAvailableLines s = filter (\<lambda>l. lineToKey l \<notin> set (lineSet s)) (allLines (gridSize s))"
  by (simp add: getAvailableLines_def allLines_def Let_def)

lemma allLines_iff:
  "l \<in> set (allLines g) \<longleftrightarrow>
     (\<exists>x y. l = (x, y, x + 1, y) \<and> 0 \<le> x \<and> x + 1 < g \<and> 0 \<le> y \<and> y < g) \<or>
     (\<exists>x y. l = (x, y, x, y + 1) \<and> 0 \<le> x \<and> x < g \<and> 0 \<le> y \<and> y + 1 < g)"
proof -
  have h: "l \<in> set [(x, y, x + 1, y). y \<leftarrow> [0..g - 1], x \<leftarrow> [0..g - 2]] \<longleftrightarrow>
     (\<exists>x y. l = (x, y, x + 1, y) \<and> 0 \<le> x \<and> x + 1 < g \<and> 0 \<le> y \<and> y < g)"
    by (fastforce simp: image_iff)
  have v: "l \<in> set [(x, y, x, y + 1). y \<leftarrow> [0..g - 2], x \<leftarrow> [0..g - 1]] \<longleftrightarrow>
     (\<exists>x y. l = (x, y, x, y + 1) \<and> 0 \<le> x \<and> x < g \<and> 0 \<le> y \<and> y + 1 < g)"
    by (fastforce simp: image_iff)
  show ?thesis unfolding allLines_def set_append Un_iff h v ..
qed

lemma normalizeLine_idem: "normalizeLine (normalizeLine l) = normalizeLine l"
  by (cases l) (auto simp: not_less)

lemma lineToKey_normalizeLine: "lineToKey (normalizeLine l) = lineToKey l"
  by (simp add: lineToKey_eq_iff normalizeLine_idem)

lemma allLines_normalized: "l \<in> set (allLines g) \<Longrightarrow> normalizeLine l = l"
  by (auto simp: allLines_iff)

lemma allLines_valid: "l \<in> set (allLines g) \<Longrightarrow> isValidLine (arr l) g"
  by (auto simp: allLines_iff)

lemma valid_in_allLines:
  assumes "isValidLine line g"
  shows "normalizeLine (coords line) \<in> set (allLines g)"
proof -
  from assms obtain x1 y1 x2 y2 where
    l: "line = Arr [IntVal x1, IntVal y1, IntVal x2, IntVal y2]"
    and b: "0 \<le> x1" "x1 < g" "0 \<le> y1" "y1 < g" "0 \<le> x2" "x2 < g" "0 \<le> y2" "y2 < g"
    and d: "\<bar>x2 - x1\<bar> + \<bar>y2 - y1\<bar> = 1"
    unfolding isValidLine_iff by blast
  from d consider "x2 = x1 + 1" "y2 = y1" | "x2 = x1 - 1" "y2 = y1"
    | "x2 = x1" "y2 = y1 + 1" | "x2 = x1" "y2 = y1 - 1"
    by (cases "x2 = x1"; cases "y2 = y1") (simp_all, linarith+)
  then show ?thesis
  proof cases
    case 1 with l b show ?thesis by (simp add: allLines_iff)
  next
    case 2 with l b show ?thesis by (simp add: allLines_iff)
  next
    case 3 with l b show ?thesis by (simp add: allLines_iff)
  next
    case 4 with l b show ?thesis by (simp add: allLines_iff)
  qed
qed

lemma key_in_allLines:
  "lineToKey l \<in> lineToKey ` set (allLines g) \<longleftrightarrow> normalizeLine l \<in> set (allLines g)"
proof
  assume "lineToKey l \<in> lineToKey ` set (allLines g)"
  then obtain l' where l': "l' \<in> set (allLines g)" "lineToKey l = lineToKey l'" by blast
  then have "normalizeLine l = normalizeLine l'" by (simp add: lineToKey_eq_iff)
  with l' show "normalizeLine l \<in> set (allLines g)" by (simp add: allLines_normalized)
next
  assume a: "normalizeLine l \<in> set (allLines g)"
  have "lineToKey l = lineToKey (normalizeLine l)"
    by (simp add: lineToKey_normalizeLine)
  with a show "lineToKey l \<in> lineToKey ` set (allLines g)" by blast
qed

lemma length_product_list:
  "length (concat (map (\<lambda>y. map (f y) xs) ys)) = length ys * length xs"
  by (induction ys) simp_all

lemma length_allLines: "0 \<le> g \<Longrightarrow> int (length (allLines g)) = totalPossibleLines g"
proof -
  assume g: "0 \<le> g"
  have "length (allLines g) = nat g * nat (g - 1) + nat (g - 1) * nat g"
    by (simp add: allLines_def length_product_list)
  then have "int (length (allLines g)) = int (nat g * nat (g - 1) + nat (g - 1) * nat g)"
    by (rule arg_cong)
  also have "\<dots> = 2 * g * (g - 1)"
  proof (cases "g = 0")
    case True then show ?thesis by simp
  next
    case False
    with g have "int (nat g) = g" and "int (nat (g - 1)) = g - 1" by simp_all
    then show ?thesis by (simp only: of_nat_add of_nat_mult) (simp add: algebra_simps)
  qed
  finally show ?thesis by (simp only: totalPossibleLines_def)
qed

lemma distinct_product_list:
  assumes "distinct xs" and "distinct ys"
    and "\<And>x y x' y'. f y x = f y' x' \<Longrightarrow> x = x' \<and> y = y'"
  shows "distinct (concat (map (\<lambda>y. map (f y) xs) ys))"
  using assms(2)
proof (induction ys)
  case Nil
  then show ?case by simp
next
  case (Cons y ys)
  have "distinct (map (f y) xs)"
    using assms(1,3) by (auto simp: distinct_map inj_on_def)
  moreover have "set (map (f y) xs) \<inter> set (concat (map (\<lambda>y. map (f y) xs) ys)) = {}"
    using Cons.prems assms(3) by fastforce
  ultimately show ?case using Cons by simp
qed

lemma distinct_allLines: "distinct (allLines g)"
proof -
  have h: "distinct [(x, y, x + 1, y). y \<leftarrow> [0..g - 1], x \<leftarrow> [0..g - 2]]"
    by (rule distinct_product_list) simp_all
  have v: "distinct [(x, y, x, y + 1). y \<leftarrow> [0..g - 2], x \<leftarrow> [0..g - 1]]"
    by (rule distinct_product_list) simp_all
  have "set [(x, y, x + 1, y). y \<leftarrow> [0..g - 1], x \<leftarrow> [0..g - 2]]
      \<inter> set [(x, y, x, y + 1). y \<leftarrow> [0..g - 2], x \<leftarrow> [0..g - 1]] = {}"
    by auto
  with h v show ?thesis unfolding allLines_def by (simp only: distinct_append) 
qed

lemma inj_on_lineToKey_allLines: "inj_on lineToKey (set (allLines g))"
proof (rule inj_onI)
  fix a b assume "a \<in> set (allLines g)" "b \<in> set (allLines g)" "lineToKey a = lineToKey b"
  then show "a = b" using allLines_normalized lineToKey_eq_iff by metis
qed

lemma distinct_keys_allLines: "distinct (map lineToKey (allLines g))"
  by (simp add: distinct_map distinct_allLines inj_on_lineToKey_allLines)

subsection \<open>Boxes and the lines that bound them\<close>

lemma isBoxComplete_sides: "isBoxComplete x y L \<longleftrightarrow> boxSides x y \<subseteq> L"
  by (simp add: isBoxComplete_def boxSides_def Let_def)

lemma side_horizontal:
  "lineToKey (a, b, a + 1, b) \<in> boxSides x y \<longleftrightarrow> x = a \<and> (y = b \<or> y = b - 1)"
  by (auto simp: boxSides_def lineToKey_eq_iff)

lemma side_vertical:
  "lineToKey (a, b, a, b + 1) \<in> boxSides x y \<longleftrightarrow> y = b \<and> (x = a \<or> x = a - 1)"
  by (auto simp: boxSides_def lineToKey_eq_iff)

lemma sides_in_grid:
  assumes "boxSides x y \<subseteq> lineToKey ` set (allLines g)"
  shows "0 \<le> x \<and> x + 1 < g \<and> 0 \<le> y \<and> y + 1 < g"
proof -
  from assms have "lineToKey (x, y, x + 1, y) \<in> lineToKey ` set (allLines g)"
    and "lineToKey (x, y, x, y + 1) \<in> lineToKey ` set (allLines g)"
    by (simp_all add: boxSides_def)
  then have "(x, y, x + 1, y) \<in> set (allLines g)" and "(x, y, x, y + 1) \<in> set (allLines g)"
    by (simp_all add: key_in_allLines)
  then show ?thesis by (simp add: allLines_iff)
qed

lemma findCompletedBoxes_horizontal:
  "findCompletedBoxes (a, b, a + 1, b) g L =
     (if b > 0 \<and> isBoxComplete a (b - 1) L then [boxKey a (b - 1)] else []) @
     (if b < g - 1 \<and> isBoxComplete a b L then [boxKey a b] else [])"
  by (simp add: findCompletedBoxes_def)

lemma findCompletedBoxes_vertical:
  "findCompletedBoxes (a, b, a, b + 1) g L =
     (if a > 0 \<and> isBoxComplete (a - 1) b L then [boxKey (a - 1) b] else []) @
     (if a < g - 1 \<and> isBoxComplete a b L then [boxKey a b] else [])"
  by (simp add: findCompletedBoxes_def)

lemma findCompletedBoxes_iff:
  assumes l: "l \<in> set (allLines g)" and L: "L \<subseteq> lineToKey ` set (allLines g)"
  shows "boxKey x y \<in> set (findCompletedBoxes l g L) \<longleftrightarrow>
           lineToKey l \<in> boxSides x y \<and> isBoxComplete x y L"
proof -
  have grid: "isBoxComplete x y L \<Longrightarrow> 0 \<le> x \<and> x + 1 < g \<and> 0 \<le> y \<and> y + 1 < g"
    using sides_in_grid L by (simp add: isBoxComplete_sides) blast
  from l consider (H) a b where "l = (a, b, a + 1, b)" | (V) a b where "l = (a, b, a, b + 1)"
    unfolding allLines_iff by blast
  then show ?thesis
  proof cases
    case H
    show ?thesis unfolding H findCompletedBoxes_horizontal side_horizontal
      using grid by auto
  next
    case V
    show ?thesis unfolding V findCompletedBoxes_vertical side_vertical
      using grid by auto
  qed
qed

lemma findCompletedBoxes_keys:
  "k \<in> set (findCompletedBoxes l g L) \<Longrightarrow> \<exists>x y. k = boxKey x y \<and> isBoxComplete x y L"
  by (cases l) (auto simp: findCompletedBoxes_def Let_def split: if_splits)

lemma findCompletedBoxes_distinct:
  "l \<in> set (allLines g) \<Longrightarrow> distinct (findCompletedBoxes l g L)"
  unfolding allLines_iff
  by (auto simp: findCompletedBoxes_horizontal findCompletedBoxes_vertical)


subsection \<open>The loop that claims the completed boxes\<close>

lemma claimBoxes_boxes:
  "fst (claimBoxes p ks (bs, sc, f)) = (\<lambda>k. if k \<in> set ks \<and> bs k = None then Some p else bs k)"
  by (induction ks arbitrary: bs sc f) (auto simp: fun_eq_iff)


lemma length_increment [simp]: "length (increment sc p) = length sc"
  by (simp add: increment_def)

lemma claimBoxes_scores:
  assumes "distinct ks" and "0 \<le> p" and "p < int (length sc)"
  shows "fst (snd (claimBoxes p ks (bs, sc, f)))
           = sc[nat p := sc ! nat p + int (length (filter (\<lambda>k. bs k = None) ks))]"
  using assms
proof (induction ks arbitrary: bs sc f)
  case Nil
  then show ?case by simp
next
  case (Cons k ks)
  show ?case
  proof (cases "bs k = None")
    case True
    from Cons.prems have k: "k \<notin> set ks" by simp
    then have same: "filter (\<lambda>j. (bs(k \<mapsto> p)) j = None) ks = filter (\<lambda>j. bs j = None) ks"
      by (intro filter_cong) auto
    from Cons.prems have p: "nat p < length sc" by simp
    have "fst (snd (claimBoxes p (k # ks) (bs, sc, f)))
        = fst (snd (claimBoxes p ks (bs(k \<mapsto> p), increment sc p, True)))"
      using True by simp
    also have "\<dots> = (increment sc p)[nat p := increment sc p ! nat p
        + int (length (filter (\<lambda>j. (bs(k \<mapsto> p)) j = None) ks))]"
      using Cons.prems by (intro Cons.IH) simp_all
    also have "\<dots> = sc[nat p := sc ! nat p + int (length (filter (\<lambda>j. bs j = None) (k # ks)))]"
    proof -
      have inc: "increment sc p = sc[nat p := sc ! nat p + 1]"
        using Cons.prems(2,3) by (simp add: increment_def)
      have "filter (\<lambda>j. bs j = None) (k # ks) = k # filter (\<lambda>j. bs j = None) ks"
        using True by simp
      then have len: "int (length (filter (\<lambda>j. bs j = None) (k # ks)))
          = 1 + int (length (filter (\<lambda>j. bs j = None) ks))"
        by simp
      show ?thesis unfolding same inc len using p by (simp add: add.assoc)
    qed
    finally show ?thesis .
  next
    case False
    then have "fst (snd (claimBoxes p (k # ks) (bs, sc, f)))
        = fst (snd (claimBoxes p ks (bs, sc, f)))"
      by auto
    also have "\<dots> = sc[nat p := sc ! nat p + int (length (filter (\<lambda>j. bs j = None) ks))]"
      using Cons.prems by (intro Cons.IH) simp_all
    also have "filter (\<lambda>j. bs j = None) ks = filter (\<lambda>j. bs j = None) (k # ks)"
      using False by simp
    finally show ?thesis .
  qed
qed

lemma claimBoxes_length_scores [simp]:
  "length (fst (snd (claimBoxes p ks (bs, sc, f)))) = length sc"
  by (induction ks arbitrary: bs sc f) auto

lemma sum_list_add_at:
  "i < length xs \<Longrightarrow> sum_list (xs[i := xs ! i + (m::int)]) = sum_list xs + m"
  by (induction xs arbitrary: i) (auto split: nat.splits)

lemma claimBoxes_dom:
  "dom (fst (claimBoxes p ks (bs, sc, f))) = dom bs \<union> {k \<in> set ks. bs k = None}"
  by (auto simp: claimBoxes_boxes dom_def)

subsection \<open>What a successful move does\<close>

lemma applyMove_SomeD:
  assumes "applyMove s line p = Some s'"
  shows "isValidLine line (gridSize s)" and "\<not> gameOver s" and "currentPlayer s = p"
    and "lineToKey (normalizeLine (coords line)) \<notin> set (lineSet s)"
    and "lines s' = lines s @ [normalizeLine (coords line)]"
    and "lineSet s' = lineSet s @ [lineToKey (normalizeLine (coords line))]"
    and "boxes s' = fst (claimBoxes p (completedBy s line) (boxes s, scores s, False))"
    and "scores s' = fst (snd (claimBoxes p (completedBy s line) (boxes s, scores s, False)))"
    and "gameOver s' \<longleftrightarrow> int (length (lines s)) + 1 \<ge> totalPossibleLines (gridSize s)"
    and "currentPlayer s' =
          (if gameOver s' \<or> snd (snd (claimBoxes p (completedBy s line) (boxes s, scores s, False)))
           then p else jsRem (p + 1) (maxPlayers s))"
    and "winner s' = (if gameOver s' then determineWinner (scores s') else None)"
    and "gridSize s' = gridSize s" and "maxPlayers s' = maxPlayers s"
    and "started s' = started s"
  using assms
  by (auto simp: applyMove_def completedBy_def Let_def split: if_splits prod.splits)

lemma jsRem_mod: "0 \<le> a \<Longrightarrow> 0 < b \<Longrightarrow> jsRem a b = a mod b"
  by (cases "a = 0") (simp_all add: jsRem_def)


subsection \<open>The invariant of reachable states\<close>

lemma wellFormedD:
  assumes "wellFormed g n s"
  shows "gridSize s = g" and "maxPlayers s = n" and "length (scores s) = nat n"
    and "0 \<le> currentPlayer s" and "currentPlayer s < n"
    and "lineSet s = map lineToKey (lines s)" and "distinct (lineSet s)"
    and "set (lines s) \<subseteq> set (allLines g)"
    and "finite (dom (boxes s))"
    and "dom (boxes s) = {k. \<exists>x y. k = boxKey x y \<and> isBoxComplete x y (set (lineSet s))}"
    and "sum_list (scores s) = int (card (dom (boxes s)))"
    and "gameOver s \<longleftrightarrow> int (length (lines s)) = totalPossibleLines g"
  using assms unfolding wellFormed_def by blast+

lemma wellFormedI:
  assumes "gridSize s = g" and "maxPlayers s = n" and "length (scores s) = nat n"
    and "0 \<le> currentPlayer s" and "currentPlayer s < n"
    and "lineSet s = map lineToKey (lines s)" and "distinct (lineSet s)"
    and "set (lines s) \<subseteq> set (allLines g)"
    and "finite (dom (boxes s))"
    and "dom (boxes s) = {k. \<exists>x y. k = boxKey x y \<and> isBoxComplete x y (set (lineSet s))}"
    and "sum_list (scores s) = int (card (dom (boxes s)))"
    and "gameOver s \<longleftrightarrow> int (length (lines s)) = totalPossibleLines g"
  shows "wellFormed g n s"
  unfolding wellFormed_def using assms by blast

lemma wellFormed_initial:
  assumes "createInitialState g n = Some s" and "2 \<le> g" and "1 \<le> n"
  shows "wellFormed g n s"
proof -
  from assms(1) have s: "s = \<lparr> gridSize = g, lines = [], lineSet = [], boxes = Map.empty,
      scores = replicate (nat n) 0, currentPlayer = 0, maxPlayers = n, started = False,
      gameOver = False, winner = None \<rparr>"
    by (simp add: createInitialState_def split: if_splits)
  from assms(2) have "1 \<le> g - 1" by simp
  with assms(2) have "2 * 1 \<le> g * (g - 1)" by (intro mult_mono) simp_all
  with assms(2) have "totalPossibleLines g \<noteq> 0" by (auto simp: totalPossibleLines_def)
  with assms(2,3) show ?thesis
    by (intro wellFormedI) (simp_all add: s isBoxComplete_def Let_def sum_list_replicate)
qed

lemma wellFormed_keys:
  assumes "wellFormed g n s"
  shows "set (lineSet s) \<subseteq> lineToKey ` set (allLines g)"
  using wellFormedD(6,8) [OF assms] by auto

lemma wellFormed_count:
  assumes "wellFormed g n s" and "lines s \<noteq> []"
  shows "int (length (lines s)) \<le> totalPossibleLines g"
proof -
  from assms(2) wellFormedD(8) [OF assms(1)] obtain l where "l \<in> set (allLines g)"
    by (cases "lines s") auto
  then have g: "0 \<le> g" by (auto simp: allLines_iff)
  have "length (lines s) = card (set (lineSet s))"
    using wellFormedD(6,7) [OF assms(1)] distinct_card [of "lineSet s"] by simp
  also have "\<dots> \<le> card (lineToKey ` set (allLines g))"
    using wellFormed_keys [OF assms(1)] by (intro card_mono) simp_all
  also have "\<dots> \<le> length (allLines g)"
    by (metis card_image_le card_length le_trans List.finite_set)
  finally show ?thesis using length_allLines [OF g] by simp
qed

lemma wellFormed_full:
  assumes "wellFormed g n s" and "int (length (lines s)) = totalPossibleLines g" and "0 \<le> g"
  shows "set (lineSet s) = lineToKey ` set (allLines g)"
proof (rule card_subset_eq)
  show "finite (lineToKey ` set (allLines g))" by simp
  show "set (lineSet s) \<subseteq> lineToKey ` set (allLines g)" by (rule wellFormed_keys [OF assms(1)])
  have "card (lineToKey ` set (allLines g)) = length (allLines g)"
    using distinct_keys_allLines [of g] distinct_card by fastforce
  moreover have "card (set (lineSet s)) = length (lines s)"
    using wellFormedD(6,7) [OF assms(1)] distinct_card [of "lineSet s"] by simp
  ultimately show "card (set (lineSet s)) = card (lineToKey ` set (allLines g))"
    using assms(2) length_allLines [OF assms(3)] by simp
qed

lemma complete_after_move:
  "isBoxComplete x y (insert k L) \<longleftrightarrow>
     isBoxComplete x y L \<or> (k \<in> boxSides x y \<and> isBoxComplete x y (insert k L))"
  by (auto simp: isBoxComplete_sides)

lemma wellFormed_applyMove:
  assumes wf: "wellFormed g n s" and am: "applyMove s line p = Some s'"
  shows "wellFormed g n s'"
proof -
  define nl where "nl = normalizeLine (coords line)"
  define k where "k = lineToKey nl"
  define L where "L = set (lineSet s)"
  define cb where "cb = completedBy s line"
  define new where "new = newlyCompleted s line"
  note d = applyMove_SomeD [OF am, folded nl_def k_def cb_def]
  note gs = wellFormedD(1) [OF wf] and mp = wellFormedD(2) [OF wf]
    and len = wellFormedD(3) [OF wf] and cp = wellFormedD(4,5) [OF wf]
    and ls = wellFormedD(6) [OF wf] and dist = wellFormedD(7) [OF wf]
    and sub = wellFormedD(8) [OF wf] and fin = wellFormedD(9) [OF wf]
    and dom = wellFormedD(10) [OF wf, folded L_def] and sum = wellFormedD(11) [OF wf]
    and over = wellFormedD(12) [OF wf]
  have nl: "nl \<in> set (allLines g)"
    using d(1) gs valid_in_allLines nl_def by simp
  have kL: "k \<notin> L" using d(4) by (simp add: L_def)
  have L: "L \<subseteq> lineToKey ` set (allLines g)"
    using wellFormed_keys [OF wf] by (simp add: L_def)
  with nl have L': "insert k L \<subseteq> lineToKey ` set (allLines g)"
    by (auto simp: k_def)
  have cb: "cb = findCompletedBoxes nl g (insert k L)"
    by (simp add: cb_def completedBy_def nl_def k_def L_def gs)
  have cb_dist: "distinct cb" unfolding cb by (rule findCompletedBoxes_distinct [OF nl])
  have new: "new = filter (\<lambda>j. boxes s j = None) cb"
    by (simp add: new_def newlyCompleted_def cb_def)
  have p: "0 \<le> p" "p < n" "p < int (length (scores s))" "nat p < length (scores s)"
    using cp d(3) len by simp_all
  have set_cb: "set cb = {j. \<exists>x y. j = boxKey x y \<and> k \<in> boxSides x y
      \<and> isBoxComplete x y (insert k L)}"
  proof (rule set_eqI)
    fix j
    show "j \<in> set cb \<longleftrightarrow> j \<in> {j. \<exists>x y. j = boxKey x y \<and> k \<in> boxSides x y
      \<and> isBoxComplete x y (insert k L)}"
    proof
      assume j: "j \<in> set cb"
      then obtain x y where "j = boxKey x y"
        unfolding cb using findCompletedBoxes_keys by blast
      with j show "j \<in> {j. \<exists>x y. j = boxKey x y \<and> k \<in> boxSides x y
          \<and> isBoxComplete x y (insert k L)}"
        unfolding cb k_def using findCompletedBoxes_iff [OF nl L' [unfolded k_def]] by blast
    next
      assume "j \<in> {j. \<exists>x y. j = boxKey x y \<and> k \<in> boxSides x y
          \<and> isBoxComplete x y (insert k L)}"
      then show "j \<in> set cb"
        unfolding cb k_def using findCompletedBoxes_iff [OF nl L' [unfolded k_def]] by blast
    qed
  qed
  have dom': "dom (boxes s') = dom (boxes s) \<union> set new"
    using d(7) by (simp add: claimBoxes_dom new)
  have disj: "dom (boxes s) \<inter> set new = {}" by (auto simp: new)
  have "dom (boxes s) \<union> set new = dom (boxes s) \<union> set cb" by (auto simp: new)
  also have "\<dots> = {j. \<exists>x y. j = boxKey x y \<and> isBoxComplete x y (insert k L)}"
    unfolding dom set_cb using complete_after_move [of _ _ k L] by blast
  finally have dom_new: "dom (boxes s') = {j. \<exists>x y. j = boxKey x y
      \<and> isBoxComplete x y (set (lineSet s'))}"
    using dom' d(6) by (simp add: L_def)
  have sc': "scores s' = (scores s)[nat p := scores s ! nat p + int (length new)]"
    using d(8) claimBoxes_scores [OF cb_dist p(1) p(3)] by (simp add: new)
  have "sum_list (scores s') = sum_list (scores s) + int (length new)"
    unfolding sc' by (rule sum_list_add_at [OF p(4)])
  also have "\<dots> = int (card (dom (boxes s))) + int (card (set new))"
  proof -
    have "distinct new" using cb_dist by (simp add: new)
    then have "card (set new) = length new" by (rule distinct_card)
    with sum show ?thesis by simp
  qed
  also have "\<dots> = int (card (dom (boxes s) \<union> set new))"
    using fin disj by (simp add: card_Un_disjoint)
  finally have sum': "sum_list (scores s') = int (card (dom (boxes s')))"
    by (simp add: dom')
  have fin': "finite (dom (boxes s'))" using fin dom' by simp
  have part: "gridSize s' = g" "maxPlayers s' = n" "length (scores s') = nat n"
    "lineSet s' = map lineToKey (lines s')" "distinct (lineSet s')"
    "set (lines s') \<subseteq> set (allLines g)"
    using d gs mp len ls dist sub nl kL
    by (simp_all add: k_def L_def sc' lineToKey_normalizeLine)
  have cnt: "int (length (lines s')) \<le> totalPossibleLines g"
  proof -
    have w: "wellFormed g n (s' \<lparr> currentPlayer := currentPlayer s,
        gameOver := (int (length (lines s')) = totalPossibleLines g) \<rparr>)"
      using part cp fin' dom_new sum' by (intro wellFormedI) simp_all
    from wellFormed_count [OF w] d(5) show ?thesis by simp
  qed
  have over': "gameOver s' \<longleftrightarrow> int (length (lines s')) = totalPossibleLines g"
    using cnt d(5,9) gs by auto
  have "0 \<le> jsRem (p + 1) n \<and> jsRem (p + 1) n < n"
    using p by (simp add: jsRem_mod)
  then have cp': "0 \<le> currentPlayer s'" "currentPlayer s' < n"
    using d(10) p mp by auto
  from part cp' fin' dom_new sum' over' show ?thesis
    by (intro wellFormedI)
qed

lemma reaches_wellFormed:
  "reaches s s' \<Longrightarrow> wellFormed g n s \<Longrightarrow> wellFormed g n s'"
  by (induction rule: reaches.induct) (auto intro: wellFormed_applyMove)

lemma reachable_wellFormed:
  "reachable g n s \<Longrightarrow> 2 \<le> g \<Longrightarrow> 1 \<le> n \<Longrightarrow> wellFormed g n s"
  unfolding reachable_def using reaches_wellFormed wellFormed_initial by blast

subsection \<open>The move that draws the last line\<close>




lemma newly_iff:
  assumes wf: "wellFormed g n s" and am: "applyMove s line p = Some s'"
  shows "boxKey x y \<in> set (newlyCompleted s line) \<longleftrightarrow>
     lineToKey (normalizeLine (coords line)) \<in> boxSides x y
     \<and> isBoxComplete x y (set (lineSet s'))"
proof -
  define nl where "nl = normalizeLine (coords line)"
  note d = applyMove_SomeD [OF am, folded nl_def]
  note gs = wellFormedD(1) [OF wf]
  have nl: "nl \<in> set (allLines g)" using d(1) gs valid_in_allLines nl_def by simp
  have L': "set (lineSet s') \<subseteq> lineToKey ` set (allLines g)"
    by (rule wellFormed_keys [OF wellFormed_applyMove [OF wf am]])
  have set': "set (lineSet s') = insert (lineToKey nl) (set (lineSet s))"
    using d(6) by simp
  have cb: "completedBy s line = findCompletedBoxes nl g (set (lineSet s'))"
    by (simp add: completedBy_def nl_def [symmetric] gs set')
  have unowned: "boxes s (boxKey x y) = None" if "lineToKey nl \<in> boxSides x y"
  proof -
    from that d(4) have "\<not> isBoxComplete x y (set (lineSet s))"
      by (auto simp: isBoxComplete_sides)
    then have "boxKey x y \<notin> dom (boxes s)"
      unfolding wellFormedD(10) [OF wf] by simp
    then show ?thesis by blast
  qed
  show ?thesis
    unfolding newlyCompleted_def cb nl_def [symmetric]
    using findCompletedBoxes_iff [OF nl L', of x y] unowned by auto
qed


subsection \<open>Sequences of moves\<close>

lemma playMoves_snoc:
  "playMoves s (ls @ [l]) =
     (case playMoves s ls of None \<Rightarrow> None | Some t \<Rightarrow> applyMove t (arr l) (currentPlayer t))"
  by (induction ls arbitrary: s) (auto split: option.splits)

lemma playMoves_reaches: "playMoves s ls = Some s' \<Longrightarrow> reaches s s'"
proof (induction ls arbitrary: s' rule: rev_induct)
  case Nil
  then show ?case by (simp add: reaches.here)
next
  case (snoc l ls)
  from snoc.prems obtain t where t: "playMoves s ls = Some t"
    and m: "applyMove t (arr l) (currentPlayer t) = Some s'"
    unfolding playMoves_snoc by (auto split: option.splits)
  from snoc.IH [OF t] m show ?case by (rule reaches.move)
qed

lemma playMoves_reachable:
  "createInitialState g n = Some s \<Longrightarrow> playMoves s ls \<noteq> None
     \<Longrightarrow> reachable g n (the (playMoves s ls))"
  unfolding reachable_def using playMoves_reaches by fastforce

lemmas game_eval = createInitialState_def applyMove_def Let_def lineToKey_eq_iff
  findCompletedBoxes_def isBoxComplete_def totalPossibleLines_def jsRem_def
  newlyCompleted_def completedBy_def increment_def determineWinner_def startGame_def

lemma allLines_3:
  "allLines 3 =
     [(0, 0, 1, 0), (1, 0, 2, 0), (0, 1, 1, 1), (1, 1, 2, 1), (0, 2, 1, 2), (1, 2, 2, 2),
      (0, 0, 0, 1), (1, 0, 1, 1), (2, 0, 2, 1), (0, 1, 0, 2), (1, 1, 1, 2), (2, 1, 2, 2)]"
  by (simp add: allLines_def upto_rec1)

lemmas search_eval = rootValues_def hardAI_def getAvailableLines_filter allLines_3
  map_filter_simps evaluate_def eval_nat_numeral

lemmas greedy_eval = mediumAI_def safeMove_def leavesDanger_def createsDanger_def
  countBoxSides_def getAvailableLines_filter allLines_3 pick_def upto_rec1

subsection \<open>Games that have been started\<close>

lemma wellFormed_startGame [simp]: "wellFormed g n (startGame s) = wellFormed g n s"
  by (simp add: wellFormed_def startGame_def)

lemma reaches_plays: "reaches s s' \<Longrightarrow> plays s s'"
  by (induction rule: reaches.induct) (auto intro: plays.intros)

lemma plays_wellFormed: "plays s s' \<Longrightarrow> wellFormed g n s \<Longrightarrow> wellFormed g n s'"
  by (induction rule: plays.induct) (auto intro: wellFormed_applyMove)

lemma inGame_wellFormed: "inGame g n s \<Longrightarrow> 2 \<le> g \<Longrightarrow> 1 \<le> n \<Longrightarrow> wellFormed g n s"
  unfolding inGame_def using plays_wellFormed wellFormed_initial by blast

lemma plays_gridSize: "plays s s' \<Longrightarrow> gridSize s' = gridSize s"
  by (induction rule: plays.induct) (auto dest: applyMove_SomeD(12) simp: startGame_def)

lemma inGame_gridSize: "inGame g n s \<Longrightarrow> gridSize s = g"
  unfolding inGame_def
  by (auto simp: createInitialState_def split: if_splits dest: plays_gridSize)


lemma inGame_started: "createInitialState g n = Some s \<Longrightarrow> inGame g n (startGame s)"
  unfolding inGame_def using plays.here plays.start by blast

lemma plays_trans: "plays t u \<Longrightarrow> plays s t \<Longrightarrow> plays s u"
  by (induction rule: plays.induct) (auto intro: plays.intros)

lemma inGame_playMoves:
  assumes "createInitialState g n = Some s" and "playMoves (startGame s) ls \<noteq> None"
  shows "inGame g n (the (playMoves (startGame s) ls))"
proof -
  from assms(2) obtain t where t: "playMoves (startGame s) ls = Some t" by blast
  have "plays s (startGame s)" by (rule plays.start) (rule plays.here)
  with reaches_plays [OF playMoves_reaches [OF t]] have "plays s t" by (rule plays_trans)
  with assms(1) t show ?thesis unfolding inGame_def by auto
qed

subsection \<open>The winner\<close>






subsection \<open>Three-sided boxes\<close>

lemma three_sides_before:
  assumes "k \<notin> L" and "k \<in> boxSides x y" and "isBoxComplete x y (insert k L)"
  shows "countBoxSides x y L = 3"
proof -
  let ?t = "lineToKey (x, y, x + 1, y)" and ?b = "lineToKey (x, y + 1, x + 1, y + 1)"
  let ?l = "lineToKey (x, y, x, y + 1)" and ?r = "lineToKey (x + 1, y, x + 1, y + 1)"
  have ne: "?t \<noteq> ?b" "?t \<noteq> ?l" "?t \<noteq> ?r" "?b \<noteq> ?l" "?b \<noteq> ?r" "?l \<noteq> ?r"
    by (simp_all add: lineToKey_eq_iff)
  from assms(3) have all: "?t \<in> insert k L" "?b \<in> insert k L" "?l \<in> insert k L"
    "?r \<in> insert k L"
    by (simp_all only: isBoxComplete_def Let_def)
  from assms(2) consider "k = ?t" | "k = ?b" | "k = ?l" | "k = ?r"
    by (auto simp: boxSides_def)
  then show ?thesis
  proof cases
    case 1 with assms(1) all ne show ?thesis by (auto simp: countBoxSides_def)
  next
    case 2 with assms(1) all ne show ?thesis by (auto simp: countBoxSides_def)
  next
    case 3 with assms(1) all ne show ?thesis by (auto simp: countBoxSides_def)
  next
    case 4 with assms(1) all ne show ?thesis by (auto simp: countBoxSides_def)
  qed
qed

subsection \<open>Invariant, turn order, scoring\<close>


text \<open>
  Claim C5. In a game on a grid of at least two dots a side with at least one player,
  every state reachable from \<open>createInitialState\<close> by successful moves has scores that
  sum to the number of owned boxes, a current player among the players, and
  \<open>gameOver\<close> set exactly when the number of drawn edges is \<open>totalPossibleLines\<close>.
\<close>

theorem reachable_invariant:
  assumes "reachable g n s" and "2 \<le> g" and "1 \<le> n"
  shows "sum_list (scores s) = int (card (dom (boxes s)))
     \<and> 0 \<le> currentPlayer s \<and> currentPlayer s < n
     \<and> (gameOver s \<longleftrightarrow> int (card (set (lineSet s))) = totalPossibleLines g)
     \<and> length (lines s) = card (set (lineSet s))"
proof -
  note wf = reachable_wellFormed [OF assms]
  have "card (set (lineSet s)) = length (lines s)"
    using wellFormedD(6,7) [OF wf] distinct_card [of "lineSet s"] by simp
  with wellFormedD(4,5,11,12) [OF wf] show ?thesis by simp
qed


theorem reachable_invariant_witness:
  "sum_list (scores (the (playMoves (the (createInitialState 2 2))
        [(0, 0, 1, 0), (0, 1, 1, 1), (0, 0, 0, 1), (1, 0, 1, 1)])))
     = int (card (dom (boxes (the (playMoves (the (createInitialState 2 2))
        [(0, 0, 1, 0), (0, 1, 1, 1), (0, 0, 0, 1), (1, 0, 1, 1)])))))
   \<and> currentPlayer (the (playMoves (the (createInitialState 2 2))
        [(0, 0, 1, 0), (0, 1, 1, 1), (0, 0, 0, 1), (1, 0, 1, 1)])) = 1
   \<and> gameOver (the (playMoves (the (createInitialState 2 2))
        [(0, 0, 1, 0), (0, 1, 1, 1), (0, 0, 0, 1), (1, 0, 1, 1)]))
   \<and> int (card (set (lineSet (the (playMoves (the (createInitialState 2 2))
        [(0, 0, 1, 0), (0, 1, 1, 1), (0, 0, 0, 1), (1, 0, 1, 1)]))))) = totalPossibleLines 2"
proof -
  have init: "createInitialState 2 2 = Some (the (createInitialState 2 2))"
    by (simp add: createInitialState_def)
  have ok: "playMoves (the (createInitialState 2 2))
      [(0, 0, 1, 0), (0, 1, 1, 1), (0, 0, 0, 1), (1, 0, 1, 1)] \<noteq> None"
    by (simp add: game_eval)
  have go: "gameOver (the (playMoves (the (createInitialState 2 2))
      [(0, 0, 1, 0), (0, 1, 1, 1), (0, 0, 0, 1), (1, 0, 1, 1)]))"
    by (simp add: game_eval)
  have cp: "currentPlayer (the (playMoves (the (createInitialState 2 2))
      [(0, 0, 1, 0), (0, 1, 1, 1), (0, 0, 0, 1), (1, 0, 1, 1)])) = 1"
    by (simp add: game_eval)
  from reachable_invariant [OF playMoves_reachable [OF init ok]] go cp
  show ?thesis by simp
qed


subsection \<open>Owners and scores\<close>







subsection \<open>Available lines\<close>

lemma available_iff:
  "l \<in> set (getAvailableLines s) \<longleftrightarrow>
     l \<in> set (allLines (gridSize s)) \<and> lineToKey l \<notin> set (lineSet s)"
  by (auto simp: getAvailableLines_filter)

lemma coords_arr [simp]: "coords (arr l) = l"
  by (cases l) simp

lemma available_applyMove:
  assumes "l \<in> set (getAvailableLines s)" and "\<not> gameOver s"
  shows "\<exists>s'. applyMove s (arr l) (currentPlayer s) = Some s'"
    and "applyMove s (arr (normalizeLine l)) (currentPlayer s)
           = applyMove s (arr l) (currentPlayer s)"
proof -
  from assms(1) have l: "l \<in> set (allLines (gridSize s))" and k: "lineToKey l \<notin> set (lineSet s)"
    by (simp_all add: available_iff)
  from l have n: "normalizeLine l = l" by (rule allLines_normalized)
  from l have "isValidLine (arr l) (gridSize s)" by (rule allLines_valid)
  with assms(2) k n have "applyMove s (arr l) (currentPlayer s) \<noteq> None"
    by (simp add: applyMove_None_iff)
  then show "\<exists>s'. applyMove s (arr l) (currentPlayer s) = Some s'" by blast
  from n show "applyMove s (arr (normalizeLine l)) (currentPlayer s)
           = applyMove s (arr l) (currentPlayer s)" by simp
qed

lemma wellFormed_available_not_over:
  assumes "wellFormed g n s" and "l \<in> set (getAvailableLines s)"
  shows "\<not> gameOver s"
proof
  assume go: "gameOver s"
  note gs = wellFormedD(1) [OF assms(1)]
  from assms(2) have l: "l \<in> set (allLines g)" and k: "lineToKey l \<notin> set (lineSet s)"
    by (simp_all add: available_iff gs)
  from l have g: "0 \<le> g" by (auto simp: allLines_iff)
  from go wellFormedD(12) [OF assms(1)] have "int (length (lines s)) = totalPossibleLines g"
    by simp
  from wellFormed_full [OF assms(1) this g] l k show False by blast
qed

subsection \<open>Counting the sides of a box\<close>

lemma countBoxSides_insert:
  "k \<notin> boxSides x y \<Longrightarrow> countBoxSides x y (insert k L) = countBoxSides x y L"
  by (auto simp: countBoxSides_def boxSides_def)

lemma countBoxSides_complete: "isBoxComplete x y L \<Longrightarrow> countBoxSides x y L = 4"
  by (simp add: countBoxSides_def isBoxComplete_def Let_def)

lemma three_sides_unique:
  assumes "countBoxSides x y L = 3" and "k \<in> boxSides x y" and "k \<notin> L"
    and "k' \<in> boxSides x y" and "k' \<notin> L"
  shows "k = k'"
  using assms by (auto simp: countBoxSides_def boxSides_def split: if_splits)

lemma createsDanger_iff:
  "createsDanger s T \<longleftrightarrow>
     (\<exists>x y. 0 \<le> x \<and> x + 1 < gridSize s \<and> 0 \<le> y \<and> y + 1 < gridSize s
        \<and> countBoxSides x y T = 3 \<and> boxes s (boxKey x y) = None)"
proof -
  have b: "z \<in> {0..gridSize s - 2} \<longleftrightarrow> 0 \<le> z \<and> z + 1 < gridSize s" for z by auto
  show ?thesis
    unfolding createsDanger_def list_ex_iff Let_def set_upto Bex_def b by blast
qed

lemma leavesDanger_iff:
  "leavesDanger s \<longleftrightarrow>
     (\<exists>x y. 0 \<le> x \<and> x + 1 < gridSize s \<and> 0 \<le> y \<and> y + 1 < gridSize s
        \<and> countBoxSides x y (set (lineSet s)) = 3 \<and> boxes s (boxKey x y) = None)"
proof -
  have b: "z \<in> {0..gridSize s - 2} \<longleftrightarrow> 0 \<le> z \<and> z + 1 < gridSize s" for z by auto
  show ?thesis
    unfolding leavesDanger_def list_ex_iff set_upto Bex_def b by blast
qed

subsection \<open>The greedy strategy\<close>

lemma pick_member:
  assumes "0 \<le> r" and "r < 1" and "xs \<noteq> []"
  shows "\<exists>x\<in>set xs. pick xs r = Some x"
proof -
  let ?n = "real (length xs)"
  from assms(3) have n: "0 < ?n" by simp
  from assms(1) n have "0 \<le> r * ?n" by simp
  then have lo: "0 \<le> \<lfloor>r * ?n\<rfloor>" by simp
  from assms(2) n have "r * ?n < ?n" by simp
  then have hi: "\<lfloor>r * ?n\<rfloor> < int (length xs)" by (simp add: floor_less_iff)
  from nat_less_iff [OF lo] hi have "nat \<lfloor>r * ?n\<rfloor> < length xs" by blast
  then have "xs ! nat \<lfloor>r * ?n\<rfloor> \<in> set xs" by (rule nth_mem)
  with lo hi show ?thesis by (simp add: pick_def Let_def)
qed

lemma safeMove_iff:
  assumes wf: "wellFormed g n s" and l: "l \<in> set (getAvailableLines s)"
  shows "safeMove s l \<longleftrightarrow> \<not> createsDanger s (insert (lineToKey l) (set (lineSet s)))"
proof -
  note ngo = wellFormed_available_not_over [OF wf l]
  from available_applyMove(1) [OF l ngo] obtain s' where
    am: "applyMove s (arr l) (currentPlayer s) = Some s'" by blast
  note d = applyMove_SomeD [OF am]
  from l have "l \<in> set (allLines (gridSize s))" by (simp add: available_iff)
  then have n: "normalizeLine l = l" by (rule allLines_normalized)
  have set': "set (lineSet s') = insert (lineToKey l) (set (lineSet s))"
    using d(6) n by simp
  have same: "boxes s' (boxKey x y) = boxes s (boxKey x y)"
    if "countBoxSides x y (set (lineSet s')) = 3" for x y
  proof -
    from that have "\<not> isBoxComplete x y (set (lineSet s'))"
      using countBoxSides_complete by fastforce
    then have "boxKey x y \<notin> set (newlyCompleted s (arr l))"
      by (simp add: newly_iff [OF wf am])
    then show ?thesis
      using d(7) by (simp add: claimBoxes_boxes newlyCompleted_def)
  qed
  have "leavesDanger s' \<longleftrightarrow> createsDanger s (insert (lineToKey l) (set (lineSet s)))"
    unfolding leavesDanger_iff createsDanger_iff d(12) set' [symmetric]
    using same by metis
  then show ?thesis by (simp add: safeMove_def am)
qed

lemma available_normalized: "l \<in> set (getAvailableLines s) \<Longrightarrow> normalizeLine l = l"
proof -
  assume "l \<in> set (getAvailableLines s)"
  then have "l \<in> set (allLines (gridSize s))" by (simp add: available_iff)
  then show ?thesis by (rule allLines_normalized)
qed

lemma ne_empty_member: "x \<in> set xs \<Longrightarrow> xs \<noteq> []"
  by auto

lemma completing_move_is_the_safe_one:
  assumes wf: "wellFormed g n s"
    and l0: "l0 \<in> set (getAvailableLines s)"
    and comp: "findCompletedBoxes l0 g (insert (lineToKey l0) (set (lineSet s))) \<noteq> []"
    and m: "m \<in> set (getAvailableLines s)" and safe: "safeMove s m"
  shows "m = l0"
proof -
  let ?L = "set (lineSet s)"
  note gs = wellFormedD(1) [OF wf]
  from l0 have l0g: "l0 \<in> set (allLines g)" and k0: "lineToKey l0 \<notin> ?L"
    by (simp_all add: available_iff gs)
  from m have mg: "m \<in> set (allLines g)" and km: "lineToKey m \<notin> ?L"
    by (simp_all add: available_iff gs)
  have L': "insert (lineToKey l0) ?L \<subseteq> lineToKey ` set (allLines g)"
    using wellFormed_keys [OF wf] l0g by auto
  from comp obtain j where "j \<in> set (findCompletedBoxes l0 g (insert (lineToKey l0) ?L))"
    by (cases "findCompletedBoxes l0 g (insert (lineToKey l0) ?L)") auto
  moreover from this obtain x y where "j = boxKey x y"
    using findCompletedBoxes_keys by blast
  ultimately have side: "lineToKey l0 \<in> boxSides x y"
    and full: "isBoxComplete x y (insert (lineToKey l0) ?L)"
    using findCompletedBoxes_iff [OF l0g L', of x y] by simp_all
  from full have "boxSides x y \<subseteq> insert (lineToKey l0) ?L"
    by (simp only: isBoxComplete_sides)
  with L' have "boxSides x y \<subseteq> lineToKey ` set (allLines g)" by (rule subset_trans [rotated])
  then have grid: "0 \<le> x \<and> x + 1 < g \<and> 0 \<le> y \<and> y + 1 < g" by (rule sides_in_grid)
  note three = three_sides_before [OF k0 side full]
  from side k0 have "\<not> isBoxComplete x y ?L" by (auto simp: isBoxComplete_sides)
  then have "boxKey x y \<notin> dom (boxes s)" unfolding wellFormedD(10) [OF wf] by simp
  then have unowned: "boxes s (boxKey x y) = None" by blast
  from safe have "\<not> createsDanger s (insert (lineToKey m) ?L)"
    by (simp add: safeMove_iff [OF wf m])
  with grid unowned have "countBoxSides x y (insert (lineToKey m) ?L) \<noteq> 3"
    unfolding createsDanger_iff gs by blast
  with three have "lineToKey m \<in> boxSides x y"
    using countBoxSides_insert by fastforce
  from three_sides_unique [OF three this km side k0] have "lineToKey m = lineToKey l0" .
  with inj_on_lineToKey_allLines [of g] mg l0g show ?thesis by (simp add: inj_on_def)
qed

text \<open>
  Claim C9. In a state of a game with at least one player, started or not, whatever
  number \<^verbatim>\<open>Math.random()\<close> returns, if some available move is safe then the
  greedy strategy returns an available move that is safe. (When a move completes a box
  and a safe move exists, the completing move is that safe move.)
\<close>

theorem greedy_safety:
  assumes "inGame g n s" and "1 \<le> n" and "0 \<le> r" and "r < 1"
    and "\<exists>l\<in>set (getAvailableLines s). safeMove s l"
  shows "\<exists>m\<in>set (getAvailableLines s). mediumAI s r = Some m \<and> safeMove s m"
proof -
  let ?L = "set (lineSet s)"
  let ?av = "getAvailableLines s"
  let ?comp = "\<lambda>line. 0 < length (findCompletedBoxes (normalizeLine line) (gridSize s)
      (insert (lineToKey (normalizeLine line)) ?L))"
  let ?safe = "filter (\<lambda>line. \<not> createsDanger s (insert (lineToKey (normalizeLine line)) ?L)) ?av"
  from assms(5) obtain m0 where m0: "m0 \<in> set ?av" and safe0: "safeMove s m0" by blast
  note gs = inGame_gridSize [OF assms(1)]
  from m0 have "m0 \<in> set (allLines g)" by (simp add: available_iff gs)
  then have "2 \<le> g" by (auto simp: allLines_iff)
  note wf = inGame_wellFormed [OF assms(1) this assms(2)]
  from m0 have ne: "length ?av \<noteq> 0" by auto
  have norm: "normalizeLine l = l" if "l \<in> set ?av" for l
    using that by (rule available_normalized)
  have med: "mediumAI s r =
      (case find ?comp ?av of Some line \<Rightarrow> Some line
       | None \<Rightarrow> if 0 < length ?safe then pick ?safe r else pick ?av r)"
    using ne by (simp add: mediumAI_def Let_def split: option.split)
  show ?thesis
  proof (cases "find ?comp ?av")
    case (Some l0)
    then have l0: "l0 \<in> set ?av" and c: "?comp l0"
      by (auto simp: find_Some_iff)
    from c have "findCompletedBoxes l0 g (insert (lineToKey l0) ?L) \<noteq> []"
      by (simp add: norm [OF l0] gs)
    from completing_move_is_the_safe_one [OF wf l0 this m0 safe0] have "m0 = l0" .
    with Some med m0 safe0 show ?thesis by simp
  next
    case None
    have "m0 \<in> set ?safe"
      using m0 safe0 by (simp add: norm [OF m0] safeMove_iff [OF wf m0])
    then have ne': "?safe \<noteq> []" by (rule ne_empty_member)
    from pick_member [OF assms(3,4) ne'] obtain m where
      m: "m \<in> set ?safe" and p: "pick ?safe r = Some m" by blast
    from m have mav: "m \<in> set ?av"
      and "\<not> createsDanger s (insert (lineToKey (normalizeLine m)) ?L)" by simp_all
    then have "safeMove s m" by (simp add: norm [OF mav] safeMove_iff [OF wf mav])
    with None med ne' p mav show ?thesis by simp
  qed
qed

theorem greedy_safety_witness:
  "mediumAI (the (playMoves (startGame (the (createInitialState 3 2)))
        [(0, 0, 1, 0), (0, 0, 0, 1)])) (3 / 20) = Some (1, 1, 2, 1)
   \<and> safeMove (the (playMoves (startGame (the (createInitialState 3 2)))
        [(0, 0, 1, 0), (0, 0, 0, 1)])) (1, 1, 2, 1)
   \<and> pick (getAvailableLines (the (playMoves (startGame (the (createInitialState 3 2)))
        [(0, 0, 1, 0), (0, 0, 0, 1)]))) (3 / 20) = Some (0, 1, 1, 1)
   \<and> \<not> safeMove (the (playMoves (startGame (the (createInitialState 3 2)))
        [(0, 0, 1, 0), (0, 0, 0, 1)])) (0, 1, 1, 1)
   \<and> mediumAI (the (playMoves (startGame (the (createInitialState 3 2)))
        [(0, 0, 1, 0), (0, 0, 0, 1), (0, 1, 1, 1)])) (3 / 20) = Some (1, 0, 1, 1)
   \<and> safeMove (the (playMoves (startGame (the (createInitialState 3 2)))
        [(0, 0, 1, 0), (0, 0, 0, 1), (0, 1, 1, 1)])) (1, 0, 1, 1)
   \<and> \<not> safeMove (the (playMoves (startGame (the (createInitialState 3 2)))
        [(0, 0, 1, 0), (0, 0, 0, 1), (0, 1, 1, 1)])) (1, 0, 2, 0)"
proof -
  let ?a = "the (playMoves (startGame (the (createInitialState 3 2)))
        [(0, 0, 1, 0), (0, 0, 0, 1)])"
  let ?b = "the (playMoves (startGame (the (createInitialState 3 2)))
        [(0, 0, 1, 0), (0, 0, 0, 1), (0, 1, 1, 1)])"
  have init: "createInitialState 3 2 = Some (the (createInitialState 3 2))"
    by (simp add: createInitialState_def)
  have oka: "playMoves (startGame (the (createInitialState 3 2)))
      [(0, 0, 1, 0), (0, 0, 0, 1)] \<noteq> None"
    by (simp add: game_eval)
  have okb: "playMoves (startGame (the (createInitialState 3 2)))
      [(0, 0, 1, 0), (0, 0, 0, 1), (0, 1, 1, 1)] \<noteq> None"
    by (simp add: game_eval)
  have ava: "getAvailableLines ?a =
      [(1, 0, 2, 0), (0, 1, 1, 1), (1, 1, 2, 1), (0, 2, 1, 2), (1, 2, 2, 2),
       (1, 0, 1, 1), (2, 0, 2, 1), (0, 1, 0, 2), (1, 1, 1, 2), (2, 1, 2, 2)]"
    by (simp add: game_eval greedy_eval)
  have safea: "safeMove ?a (2, 1, 2, 2)"
    by (simp add: game_eval greedy_eval)
  have unsafea: "\<not> safeMove ?a (0, 1, 1, 1)"
    by (simp add: game_eval greedy_eval)
  have meda: "mediumAI ?a (3 / 20) = Some (1, 1, 2, 1)"
    by (simp add: game_eval greedy_eval)
  have picka: "pick (getAvailableLines ?a) (3 / 20) = Some (0, 1, 1, 1)"
    unfolding ava by (simp add: pick_def)
  have avb: "(1, 0, 1, 1) \<in> set (getAvailableLines ?b)"
    by (simp add: game_eval greedy_eval)
  have safeb: "safeMove ?b (1, 0, 1, 1)"
    by (simp add: game_eval greedy_eval)
  have unsafeb: "\<not> safeMove ?b (1, 0, 2, 0)"
    by (simp add: game_eval greedy_eval)
  have medb: "mediumAI ?b (3 / 20) = Some (1, 0, 1, 1)"
    by (simp add: game_eval greedy_eval)
  from ava safea have exa: "\<exists>l\<in>set (getAvailableLines ?a). safeMove ?a l" by simp
  from avb safeb have exb: "\<exists>l\<in>set (getAvailableLines ?b). safeMove ?b l" by blast
  from greedy_safety [OF inGame_playMoves [OF init oka] _ _ _ exa, of "3 / 20"] meda
  have "safeMove ?a (1, 1, 2, 1)" by simp
  moreover
  from greedy_safety [OF inGame_playMoves [OF init okb] _ _ _ exb, of "3 / 20"] medb
  have "mediumAI ?b (3 / 20) = Some (1, 0, 1, 1) \<and> safeMove ?b (1, 0, 1, 1)" by simp
  ultimately show ?thesis using meda picka unsafea unsafeb by simp
qed

subsection \<open>Search values are finite numbers\<close>

lemma applyMove_length_scores:
  "applyMove s line p = Some s' \<Longrightarrow> length (scores s') = length (scores s)"
  by (simp add: applyMove_SomeD(8))

lemma evaluate_Fin:
  "0 \<le> ai \<Longrightarrow> ai < int (length (scores s)) \<Longrightarrow> \<exists>v. evaluate s ai = Fin v"
  by (simp add: evaluate_def Let_def)

lemma jsMax_Fin: "e = NegInf \<or> (\<exists>u. e = Fin u) \<Longrightarrow> \<exists>w. jsMax e (Fin v) = Fin w"
  by (cases e) auto

lemma jsMin_Fin: "e = PosInf \<or> (\<exists>u. e = Fin u) \<Longrightarrow> \<exists>w. jsMin e (Fin v) = Fin w"
  by (cases e) auto

lemma maxLoop_Fin:
  assumes "\<And>l ns a b. l \<in> set ls
      \<Longrightarrow> applyMove s (arr (normalizeLine l)) (currentPlayer s) = Some ns
      \<Longrightarrow> \<exists>v. search ns a b = Fin v"
    and "maxEval = NegInf \<or> (\<exists>v. maxEval = Fin v)"
  shows "(\<exists>v. maxLoop search s ls alpha beta maxEval = Fin v)
     \<or> (maxLoop search s ls alpha beta maxEval = maxEval
        \<and> (\<forall>l\<in>set ls. applyMove s (arr (normalizeLine l)) (currentPlayer s) = None))"
  using assms
proof (induction ls arbitrary: alpha maxEval)
  case Nil
  then show ?case by simp
next
  case (Cons l ls)
  have rest: "\<exists>v. search ns a b = Fin v"
    if "l' \<in> set ls" and "applyMove s (arr (normalizeLine l')) (currentPlayer s) = Some ns"
    for l' ns a b
    using Cons.prems(1) [of l' ns a b] that by simp
  show ?case
  proof (cases "applyMove s (arr (normalizeLine l)) (currentPlayer s)")
    case None
    then have step: "maxLoop search s (l # ls) alpha beta maxEval = maxLoop search s ls alpha beta maxEval"
      by simp
    have "(\<exists>v. maxLoop search s ls alpha beta maxEval = Fin v)
     \<or> (maxLoop search s ls alpha beta maxEval = maxEval
        \<and> (\<forall>l\<in>set ls. applyMove s (arr (normalizeLine l)) (currentPlayer s) = None))"
      using rest Cons.prems(2) by (rule Cons.IH)
    with step None show ?thesis by simp
  next
    case (Some ns)
    from Cons.prems(1) [of l ns alpha beta] Some obtain v where v: "search ns alpha beta = Fin v"
      by auto
    from jsMax_Fin [OF Cons.prems(2)] obtain w where w: "jsMax maxEval (Fin v) = Fin w"
      by blast
    have fin: "Fin w = NegInf \<or> (\<exists>u. Fin w = Fin u)" by simp
    have "(\<exists>u. maxLoop search s ls (jsMax alpha (Fin v)) beta (Fin w) = Fin u)
       \<or> (maxLoop search s ls (jsMax alpha (Fin v)) beta (Fin w) = Fin w
        \<and> (\<forall>l\<in>set ls. applyMove s (arr (normalizeLine l)) (currentPlayer s) = None))"
      using rest fin by (rule Cons.IH)
    then have "\<exists>u. maxLoop search s ls (jsMax alpha (Fin v)) beta (Fin w) = Fin u" by auto
    with Some v w show ?thesis by (simp add: Let_def)
  qed
qed

lemma minLoop_Fin:
  assumes "\<And>l ns a b. l \<in> set ls
      \<Longrightarrow> applyMove s (arr (normalizeLine l)) (currentPlayer s) = Some ns
      \<Longrightarrow> \<exists>v. search ns a b = Fin v"
    and "minEval = PosInf \<or> (\<exists>v. minEval = Fin v)"
  shows "(\<exists>v. minLoop search s ls alpha beta minEval = Fin v)
     \<or> (minLoop search s ls alpha beta minEval = minEval
        \<and> (\<forall>l\<in>set ls. applyMove s (arr (normalizeLine l)) (currentPlayer s) = None))"
  using assms
proof (induction ls arbitrary: beta minEval)
  case Nil
  then show ?case by simp
next
  case (Cons l ls)
  have rest: "\<exists>v. search ns a b = Fin v"
    if "l' \<in> set ls" and "applyMove s (arr (normalizeLine l')) (currentPlayer s) = Some ns"
    for l' ns a b
    using Cons.prems(1) [of l' ns a b] that by simp
  show ?case
  proof (cases "applyMove s (arr (normalizeLine l)) (currentPlayer s)")
    case None
    then have step: "minLoop search s (l # ls) alpha beta minEval = minLoop search s ls alpha beta minEval"
      by simp
    have "(\<exists>v. minLoop search s ls alpha beta minEval = Fin v)
     \<or> (minLoop search s ls alpha beta minEval = minEval
        \<and> (\<forall>l\<in>set ls. applyMove s (arr (normalizeLine l)) (currentPlayer s) = None))"
      using rest Cons.prems(2) by (rule Cons.IH)
    with step None show ?thesis by simp
  next
    case (Some ns)
    from Cons.prems(1) [of l ns alpha beta] Some obtain v where v: "search ns alpha beta = Fin v"
      by auto
    from jsMin_Fin [OF Cons.prems(2)] obtain w where w: "jsMin minEval (Fin v) = Fin w"
      by blast
    have fin: "Fin w = PosInf \<or> (\<exists>u. Fin w = Fin u)" by simp
    have "(\<exists>u. minLoop search s ls alpha (jsMin beta (Fin v)) (Fin w) = Fin u)
       \<or> (minLoop search s ls alpha (jsMin beta (Fin v)) (Fin w) = Fin w
        \<and> (\<forall>l\<in>set ls. applyMove s (arr (normalizeLine l)) (currentPlayer s) = None))"
      using rest fin by (rule Cons.IH)
    then have "\<exists>u. minLoop search s ls alpha (jsMin beta (Fin v)) (Fin w) = Fin u" by auto
    with Some v w show ?thesis by (simp add: Let_def)
  qed
qed

lemma minimax_Fin:
  "0 \<le> ai \<Longrightarrow> ai < int (length (scores s)) \<Longrightarrow> \<exists>v. minimax s d alpha beta isMax ai = Fin v"
proof (induction d arbitrary: s alpha beta isMax)
  case 0
  then show ?case by (simp add: evaluate_Fin)
next
  case (Suc d)
  let ?search = "\<lambda>newState alpha' beta'.
      minimax newState d alpha' beta' (currentPlayer newState = ai) ai"
  let ?av = "getAvailableLines s"
  have child: "\<exists>v. ?search ns a b = Fin v"
    if "applyMove s (arr (normalizeLine l)) (currentPlayer s) = Some ns" for l ns a b
    using Suc.IH [of ns] Suc.prems applyMove_length_scores [OF that] by simp
  show ?case
  proof (cases "gameOver s \<or> length ?av = 0")
    case True
    with Suc.prems evaluate_Fin [of ai s] show ?thesis by auto
  next
    case False
    then obtain l where l: "l \<in> set ?av" by (cases ?av) auto
    from False available_applyMove [OF l] have
      some: "applyMove s (arr (normalizeLine l)) (currentPlayer s) \<noteq> None" by auto
    show ?thesis
    proof (cases "isMax \<or> currentPlayer s = ai")
      case True
      have "(\<exists>v. maxLoop ?search s ?av alpha beta NegInf = Fin v)
         \<or> (maxLoop ?search s ?av alpha beta NegInf = NegInf
            \<and> (\<forall>l\<in>set ?av. applyMove s (arr (normalizeLine l)) (currentPlayer s) = None))"
        by (rule maxLoop_Fin) (simp_all add: child)
      with l some have "\<exists>v. maxLoop ?search s ?av alpha beta NegInf = Fin v" by auto
      with True False show ?thesis by (simp add: Let_def)
    next
      case max: False
      have "(\<exists>v. minLoop ?search s ?av alpha beta PosInf = Fin v)
         \<or> (minLoop ?search s ?av alpha beta PosInf = PosInf
            \<and> (\<forall>l\<in>set ?av. applyMove s (arr (normalizeLine l)) (currentPlayer s) = None))"
        by (rule minLoop_Fin) (simp_all add: child)
      with l some have "\<exists>v. minLoop ?search s ?av alpha beta PosInf = Fin v" by auto
      with max False show ?thesis by (simp add: Let_def)
    qed
  qed
qed

subsection \<open>The move that the search selects\<close>

lemma rootLoop_firstBest:
  "rootLoop s ai D ls b m =
     firstBest (List.map_filter (\<lambda>line.
         case applyMove s (arr (normalizeLine line)) (currentPlayer s) of
           None \<Rightarrow> None
         | Some newState \<Rightarrow> Some (line, minimax newState (D - 1) NegInf PosInf False ai)) ls) b m"
  by (induction ls arbitrary: b m) (simp_all add: List.map_filter_simps Let_def split: option.split)

lemma hardAI_firstBest: "hardAI s ai = firstBest (rootValues s ai) NegInf None"
  by (simp add: hardAI_def rootValues_def Let_def rootLoop_firstBest List.map_filter_simps)

lemma jsGt_Fin [simp]: "jsGt (Fin a) (Fin b) \<longleftrightarrow> b < a" "jsGt (Fin a) NegInf"
  by auto

lemma firstBest_spec:
  assumes "\<forall>x\<in>set rv. \<exists>u. snd x = Fin u" and "b = NegInf \<or> (\<exists>bv. b = Fin bv)"
  shows "((\<forall>x\<in>set rv. \<not> jsGt (snd x) b) \<and> firstBest rv b m = m)
     \<or> (\<exists>pre l v post. rv = pre @ (l, Fin v) # post \<and> firstBest rv b m = Some l
          \<and> jsGt (Fin v) b
          \<and> (\<forall>x\<in>set pre. \<exists>u. snd x = Fin u \<and> u < v)
          \<and> (\<forall>x\<in>set post. \<exists>u. snd x = Fin u \<and> u \<le> v))"
  using assms
proof (induction rv arbitrary: b m)
  case Nil
  then show ?case by simp
next
  case (Cons x rest)
  obtain l sc where x: "x = (l, sc)" by (cases x)
  from Cons.prems(1) x obtain u where sc: "sc = Fin u" by auto
  from Cons.prems(1) have fin: "\<forall>x\<in>set rest. \<exists>u. snd x = Fin u" by simp
  show ?case
  proof (cases "jsGt (Fin u) b")
    case True
    have step: "firstBest (x # rest) b m = firstBest rest (Fin u) (Some l)"
      using True by (simp add: x sc)
    have bu: "Fin u = NegInf \<or> (\<exists>bv. Fin u = Fin bv)" by simp
    from Cons.IH [OF fin bu, of "Some l"]
    consider (keep) "\<forall>x\<in>set rest. \<not> jsGt (snd x) (Fin u)"
        "firstBest rest (Fin u) (Some l) = Some l"
      | (later) pre l' v post where "rest = pre @ (l', Fin v) # post"
        "firstBest rest (Fin u) (Some l) = Some l'" "jsGt (Fin v) (Fin u)"
        "\<forall>x\<in>set pre. \<exists>w. snd x = Fin w \<and> w < v"
        "\<forall>x\<in>set post. \<exists>w. snd x = Fin w \<and> w \<le> v"
      by blast
    then show ?thesis
    proof cases
      case keep
      have "\<forall>x\<in>set rest. \<exists>w. snd x = Fin w \<and> w \<le> u"
      proof
        fix y assume y: "y \<in> set rest"
        with fin obtain w where w: "snd y = Fin w" by blast
        with keep(1) y have "\<not> u < w" by fastforce
        with w show "\<exists>w. snd y = Fin w \<and> w \<le> u" by simp
      qed
      then have "x # rest = [] @ (l, Fin u) # rest \<and> firstBest (x # rest) b m = Some l
          \<and> jsGt (Fin u) b \<and> (\<forall>x\<in>set []. \<exists>w. snd x = Fin w \<and> w < u)
          \<and> (\<forall>x\<in>set rest. \<exists>w. snd x = Fin w \<and> w \<le> u)"
        using step keep(2) True by (simp add: x sc)
      then show ?thesis by blast
    next
      case later
      from later(3) have uv: "u < v" by simp
      with True Cons.prems(2) have "jsGt (Fin v) b" by auto
      with later uv step
      have "x # rest = ((l, Fin u) # pre) @ (l', Fin v) # post
          \<and> firstBest (x # rest) b m = Some l' \<and> jsGt (Fin v) b
          \<and> (\<forall>x\<in>set ((l, Fin u) # pre). \<exists>w. snd x = Fin w \<and> w < v)
          \<and> (\<forall>x\<in>set post. \<exists>w. snd x = Fin w \<and> w \<le> v)"
        by (simp add: x sc)
      then show ?thesis by blast
    qed
  next
    case False
    with Cons.prems(2) obtain bv where bv: "b = Fin bv" "u \<le> bv" by auto
    have step: "firstBest (x # rest) b m = firstBest rest b m"
      using False by (simp add: x sc)
    from Cons.IH [OF fin Cons.prems(2), of m]
    consider (keep) "\<forall>x\<in>set rest. \<not> jsGt (snd x) b" "firstBest rest b m = m"
      | (later) pre l' v post where "rest = pre @ (l', Fin v) # post"
        "firstBest rest b m = Some l'" "jsGt (Fin v) b"
        "\<forall>x\<in>set pre. \<exists>w. snd x = Fin w \<and> w < v"
        "\<forall>x\<in>set post. \<exists>w. snd x = Fin w \<and> w \<le> v"
      by blast
    then show ?thesis
    proof cases
      case keep
      with step False show ?thesis by (simp add: x sc)
    next
      case later
      from later(3) bv have "u < v" by simp
      with later step
      have "x # rest = ((l, Fin u) # pre) @ (l', Fin v) # post
          \<and> firstBest (x # rest) b m = Some l' \<and> jsGt (Fin v) b
          \<and> (\<forall>x\<in>set ((l, Fin u) # pre). \<exists>w. snd x = Fin w \<and> w < v)
          \<and> (\<forall>x\<in>set post. \<exists>w. snd x = Fin w \<and> w \<le> v)"
        by (simp add: x sc)
      then show ?thesis by blast
    qed
  qed
qed

lemma in_map_filter: "y \<in> set (List.map_filter f xs) \<longleftrightarrow> (\<exists>x\<in>set xs. f x = Some y)"
  by (induction xs) (auto split: option.splits)

lemma rootValues_Fin:
  assumes "0 \<le> ai" and "ai < int (length (scores s))"
  shows "\<forall>x\<in>set (rootValues s ai). \<exists>u. snd x = Fin u"
proof
  fix x assume "x \<in> set (rootValues s ai)"
  then obtain line ns d where "applyMove s (arr (normalizeLine line)) (currentPlayer s) = Some ns"
    and x: "x = (line, minimax ns d NegInf PosInf False ai)"
    unfolding rootValues_def Let_def in_map_filter by (auto split: option.splits)
  from applyMove_length_scores [OF this(1)] assms
  have "\<exists>u. minimax ns d NegInf PosInf False ai = Fin u"
    by (intro minimax_Fin) simp_all
  with x show "\<exists>u. snd x = Fin u" by simp
qed

lemma plays_length_scores: "plays s s' \<Longrightarrow> length (scores s') = length (scores s)"
  by (induction rule: plays.induct) (auto dest: applyMove_length_scores simp: startGame_def)

lemma inGame_length_scores: "inGame g n s \<Longrightarrow> length (scores s) = nat n"
  unfolding inGame_def
  by (auto simp: createInitialState_def split: if_splits dest: plays_length_scores)

lemma rootValues_childValues:
  "rootValues s ai = childValues s ai
     ((if length (getAvailableLines s) \<le> 12 then length (getAvailableLines s) else 6) - 1)"
  unfolding rootValues_def childValues_def Let_def by (rule refl)

lemma childValues_moves:
  "map fst (childValues s ai d) = (if gameOver s then [] else getAvailableLines s)"
proof -
  let ?f = "\<lambda>line. case applyMove s (arr (normalizeLine line)) (currentPlayer s) of
           None \<Rightarrow> None
         | Some newState \<Rightarrow> Some (line, minimax newState d NegInf PosInf False ai)"
  have over: "map fst (List.map_filter ?f ls) = []" if "gameOver s" for ls
  proof -
    from that have "applyMove s x p = None" for x p by (simp add: applyMove_None_iff)
    then show ?thesis by (induction ls) simp_all
  qed
  have run: "map fst (List.map_filter ?f ls) = ls"
    if "\<not> gameOver s" and "set ls \<subseteq> set (getAvailableLines s)" for ls
    using that(2)
  proof (induction ls)
    case Nil
    then show ?case by simp
  next
    case (Cons l ls)
    then have "l \<in> set (getAvailableLines s)" by simp
    from available_applyMove [OF this that(1)] obtain ns where
      "applyMove s (arr (normalizeLine l)) (currentPlayer s) = Some ns" by auto
    with Cons show ?case by simp
  qed
  show ?thesis
  proof (cases "gameOver s")
    case True
    with over show ?thesis by (simp add: childValues_def)
  next
    case False
    with run [OF False subset_refl] show ?thesis by (simp add: childValues_def)
  qed
qed

lemma rootValues_moves:
  "map fst (rootValues s ai) = (if gameOver s then [] else getAvailableLines s)"
  unfolding rootValues_childValues by (rule childValues_moves)

lemma hardAI_best:
  assumes "0 \<le> ai" and "ai < int (length (scores s))" and "rootValues s ai \<noteq> []"
  shows "\<exists>pre l v post. rootValues s ai = pre @ (l, Fin v) # post \<and> hardAI s ai = Some l
     \<and> (\<forall>x\<in>set pre. \<exists>u. snd x = Fin u \<and> u < v)
     \<and> (\<forall>x\<in>set post. \<exists>u. snd x = Fin u \<and> u \<le> v)"
proof -
  note fin = rootValues_Fin [OF assms(1,2)]
  have b: "NegInf = NegInf \<or> (\<exists>bv. NegInf = Fin bv)" by simp
  from assms(3) have "hd (rootValues s ai) \<in> set (rootValues s ai)" by (rule hd_in_set)
  then obtain x where x: "x \<in> set (rootValues s ai)" ..
  with fin obtain u where "snd x = Fin u" by blast
  then have "jsGt (snd x) NegInf" by simp
  with x firstBest_spec [OF fin b, of None] show ?thesis
    unfolding hardAI_firstBest by blast
qed

lemma hardAI_returns:
  assumes "0 \<le> ai" and "ai < int (length (scores s))" and "\<not> gameOver s"
    and "getAvailableLines s \<noteq> []"
  shows "\<exists>l\<in>set (getAvailableLines s). hardAI s ai = Some l"
proof -
  from assms(3,4) rootValues_moves [of s ai] have ne: "rootValues s ai \<noteq> []" by auto
  from hardAI_best [OF assms(1,2) ne] obtain pre l v post where
    rv: "rootValues s ai = pre @ (l, Fin v) # post" and h: "hardAI s ai = Some l" by blast
  from rv have "l \<in> set (map fst (rootValues s ai))" by simp
  with assms(3) rootValues_moves [of s ai] h show ?thesis by simp
qed

text \<open>
  Claim C7. \<open>hardAI\<close> takes the state and the index of the AI player and nothing else
  (no random number, unlike the other two strategies), so two invocations on the same
  arguments give the same move. For an AI player that is one of the players of the
  game, started or not, that move is the first one, in the order of \<open>getAvailableLines\<close>,
  whose child has the highest search value: every earlier move has a strictly smaller
  value and no later move has a greater one.
\<close>

theorem hardAI_first_best:
  assumes "inGame g n s" and "0 \<le> ai" and "ai < n"
  shows "map fst (rootValues s ai) = (if gameOver s then [] else getAvailableLines s)
     \<and> hardAI s ai = firstBest (rootValues s ai) NegInf None
     \<and> (rootValues s ai = [] \<longrightarrow> hardAI s ai = None)
     \<and> (rootValues s ai \<noteq> [] \<longrightarrow>
          (\<exists>pre l v post. rootValues s ai = pre @ (l, Fin v) # post \<and> hardAI s ai = Some l
             \<and> (\<forall>x\<in>set pre. \<exists>u. snd x = Fin u \<and> u < v)
             \<and> (\<forall>x\<in>set post. \<exists>u. snd x = Fin u \<and> u \<le> v)))"
proof -
  from assms have ai: "ai < int (length (scores s))"
    by (simp add: inGame_length_scores)
  have empty: "rootValues s ai = [] \<longrightarrow> hardAI s ai = None"
    by (simp add: hardAI_firstBest)
  from rootValues_moves hardAI_firstBest empty hardAI_best [OF assms(2) ai]
  show ?thesis by blast
qed

theorem hardAI_first_best_witness:
  "rootValues (the (playMoves (startGame (the (createInitialState 3 2)))
        [(0, 1, 0, 2), (0, 1, 1, 1), (1, 1, 1, 2), (0, 2, 1, 2),
         (1, 0, 1, 1), (0, 0, 1, 0), (1, 0, 2, 0), (0, 0, 0, 1)])) 0
     = [((1, 1, 2, 1), Fin 0), ((1, 2, 2, 2), Fin 2), ((2, 0, 2, 1), Fin 0),
        ((2, 1, 2, 2), Fin 2)]
   \<and> hardAI (the (playMoves (startGame (the (createInitialState 3 2)))
        [(0, 1, 0, 2), (0, 1, 1, 1), (1, 1, 1, 2), (0, 2, 1, 2),
         (1, 0, 1, 1), (0, 0, 1, 0), (1, 0, 2, 0), (0, 0, 0, 1)])) 0 = Some (1, 2, 2, 2)
   \<and> currentPlayer (the (playMoves (startGame (the (createInitialState 3 2)))
        [(0, 1, 0, 2), (0, 1, 1, 1), (1, 1, 1, 2), (0, 2, 1, 2),
         (1, 0, 1, 1), (0, 0, 1, 0), (1, 0, 2, 0), (0, 0, 0, 1)])) = 0
   \<and> started (the (playMoves (startGame (the (createInitialState 3 2)))
        [(0, 1, 0, 2), (0, 1, 1, 1), (1, 1, 1, 2), (0, 2, 1, 2),
         (1, 0, 1, 1), (0, 0, 1, 0), (1, 0, 2, 0), (0, 0, 0, 1)]))"
proof -
  define s where "s = the (playMoves (startGame (the (createInitialState 3 2)))
        [(0, 1, 0, 2), (0, 1, 1, 1), (1, 1, 1, 2), (0, 2, 1, 2),
         (1, 0, 1, 1), (0, 0, 1, 0), (1, 0, 2, 0), (0, 0, 0, 1)])"
  have init: "createInitialState 3 2 = Some (the (createInitialState 3 2))"
    by (simp add: createInitialState_def)
  have ok: "playMoves (startGame (the (createInitialState 3 2)))
        [(0, 1, 0, 2), (0, 1, 1, 1), (1, 1, 1, 2), (0, 2, 1, 2),
         (1, 0, 1, 1), (0, 0, 1, 0), (1, 0, 2, 0), (0, 0, 0, 1)] \<noteq> None"
    by (simp add: game_eval)
  have ing: "inGame 3 2 s"
    unfolding s_def by (rule inGame_playMoves [OF init ok])
  have rv: "rootValues s 0
     = [((1, 1, 2, 1), Fin 0), ((1, 2, 2, 2), Fin 2), ((2, 0, 2, 1), Fin 0),
        ((2, 1, 2, 2), Fin 2)]"
    unfolding s_def by (simp add: game_eval search_eval)
  have cp: "currentPlayer s = 0 \<and> started s"
    unfolding s_def by (simp add: game_eval)
  from hardAI_first_best [OF ing, of 0] have "hardAI s 0 = firstBest (rootValues s 0) NegInf None"
    by simp
  with rv cp show ?thesis unfolding s_def by simp
qed

subsection \<open>How many lines are left\<close>

lemma length_filter_same_key:
  "distinct (map f ys) \<Longrightarrow> y \<in> set ys \<Longrightarrow> length (filter (\<lambda>z. f z = f y) ys) = 1"
proof (induction ys)
  case Nil
  then show ?case by simp
next
  case (Cons a ys)
  from Cons.prems(1) have fa: "f a \<notin> f ` set ys" and d: "distinct (map f ys)" by simp_all
  show ?case
  proof (cases "a = y")
    case True
    have "f z \<noteq> f y" if "z \<in> set ys" for z
    proof
      assume eq: "f z = f y"
      from that have "f z \<in> f ` set ys" by (rule imageI)
      with eq True fa show False by simp
    qed
    then have "filter (\<lambda>z. f z = f y) ys = []"
      by (simp add: filter_empty_conv)
    with True show ?thesis by simp
  next
    case False
    with Cons.prems(2) have y: "y \<in> set ys" by simp
    with fa have "f a \<noteq> f y" by auto
    with Cons.IH [OF d y] show ?thesis by simp
  qed
qed

lemma available_shrinks:
  assumes "applyMove s line p = Some s'"
  shows "length (getAvailableLines s') + 1 = length (getAvailableLines s)"
proof -
  define nl where "nl = normalizeLine (coords line)"
  note d = applyMove_SomeD [OF assms, folded nl_def]
  let ?av = "getAvailableLines s"
  have nl: "nl \<in> set ?av"
    using valid_in_allLines [OF d(1)] d(4) by (simp add: available_iff nl_def)
  have dist: "distinct (map lineToKey ?av)"
    unfolding getAvailableLines_filter by (rule distinct_map_filter) (rule distinct_keys_allLines)
  have "getAvailableLines s' = filter (\<lambda>l. lineToKey l \<noteq> lineToKey nl) ?av"
    unfolding getAvailableLines_filter d(6) d(12)
    by (simp add: conj_commute)
  then have "length (getAvailableLines s') + length (filter (\<lambda>l. lineToKey l = lineToKey nl) ?av)
      = length ?av"
    using sum_length_filter_compl [of "\<lambda>l. lineToKey l = lineToKey nl" ?av] by simp
  with length_filter_same_key [OF dist nl] show ?thesis by simp
qed

lemma wellFormed_available_count:
  assumes wf: "wellFormed g n s" and g: "0 \<le> g"
  shows "int (length (getAvailableLines s)) + int (length (lines s)) = totalPossibleLines g"
proof -
  let ?L = "set (lineSet s)"
  let ?drawn = "filter (\<lambda>l. lineToKey l \<in> ?L) (allLines g)"
  have "distinct (map lineToKey ?drawn)"
    by (rule distinct_map_filter) (rule distinct_keys_allLines)
  then have "length ?drawn = card (set (map lineToKey ?drawn))"
    using distinct_card [of "map lineToKey ?drawn"] by simp
  also have "set (map lineToKey ?drawn) = ?L"
    using wellFormed_keys [OF wf] by auto
  also have "card ?L = length (lines s)"
    using wellFormedD(6,7) [OF wf] distinct_card [of "lineSet s"] by simp
  finally have drawn: "length ?drawn = length (lines s)" .
  have "length (getAvailableLines s) + length ?drawn = length (allLines g)"
    unfolding getAvailableLines_filter wellFormedD(1) [OF wf]
    using sum_length_filter_compl [of "\<lambda>l. lineToKey l \<in> ?L" "allLines g"] by simp
  with drawn have "int (length (getAvailableLines s)) + int (length (lines s))
      = int (length (allLines g))" by simp
  with length_allLines [OF g] show ?thesis by simp
qed

lemma wellFormed_no_moves_over:
  assumes "wellFormed g n s" and "0 \<le> g" and "getAvailableLines s = []"
  shows "gameOver s"
  using wellFormed_available_count [OF assms(1,2)] assms(3) wellFormedD(12) [OF assms(1)]
  by simp

subsection \<open>Where the search takes its values\<close>

lemma jsMax_cases: "jsMax a b = a \<or> jsMax a b = b"
  by (cases a; cases b) simp_all

lemma jsMin_cases: "jsMin a b = a \<or> jsMin a b = b"
  by (cases a; cases b) simp_all

lemma jsMax_NegInf [simp]: "jsMax NegInf b = b"
  by (cases b) simp_all

lemma jsMin_PosInf [simp]: "jsMin PosInf b = b"
  by (cases b) simp_all

lemma reaches_trans: "reaches t u \<Longrightarrow> reaches s t \<Longrightarrow> reaches s u"
  by (induction rule: reaches.induct) (auto intro: reaches.intros)

lemma reaches_first:
  assumes "applyMove s line p = Some t" and "reaches t u"
  shows "reaches s u"
proof -
  from assms(1) have "reaches s t" by (rule reaches.move [OF reaches.here])
  with assms(2) show ?thesis by (rule reaches_trans)
qed

lemma maxLoop_pick:
  assumes "\<And>l ns a b. l \<in> set ls
      \<Longrightarrow> applyMove s (arr (normalizeLine l)) (currentPlayer s) = Some ns \<Longrightarrow> Q (search ns a b)"
    and "Q acc \<or> (acc = NegInf
        \<and> (\<exists>l\<in>set ls. applyMove s (arr (normalizeLine l)) (currentPlayer s) \<noteq> None))"
  shows "Q (maxLoop search s ls alpha beta acc)"
  using assms
proof (induction ls arbitrary: alpha acc)
  case Nil
  then show ?case by simp
next
  case (Cons l ls)
  have child: "Q (search ns a b)"
    if "l' \<in> set ls" and "applyMove s (arr (normalizeLine l')) (currentPlayer s) = Some ns"
    for l' ns a b
    using Cons.prems(1) [of l' ns a b] that by simp
  show ?case
  proof (cases "applyMove s (arr (normalizeLine l)) (currentPlayer s)")
    case None
    with Cons.prems(2) have "Q acc \<or> (acc = NegInf
        \<and> (\<exists>l\<in>set ls. applyMove s (arr (normalizeLine l)) (currentPlayer s) \<noteq> None))"
      by auto
    from Cons.IH [OF child this] None show ?thesis by simp
  next
    case (Some ns)
    from Cons.prems(1) [of l ns alpha beta] Some have v: "Q (search ns alpha beta)" by simp
    have "Q (jsMax acc (search ns alpha beta))"
    proof (cases "Q acc")
      case True
      with v jsMax_cases [of acc "search ns alpha beta"] show ?thesis by auto
    next
      case False
      with Cons.prems(2) have "acc = NegInf" by blast
      with v show ?thesis by simp
    qed
    then have acc': "Q (jsMax acc (search ns alpha beta)) \<or> (jsMax acc (search ns alpha beta) = NegInf
        \<and> (\<exists>l\<in>set ls. applyMove s (arr (normalizeLine l)) (currentPlayer s) \<noteq> None))"
      by simp
    from Cons.IH [OF child acc'] \<open>Q (jsMax acc (search ns alpha beta))\<close> Some
    show ?thesis by (simp add: Let_def)
  qed
qed

lemma minLoop_pick:
  assumes "\<And>l ns a b. l \<in> set ls
      \<Longrightarrow> applyMove s (arr (normalizeLine l)) (currentPlayer s) = Some ns \<Longrightarrow> Q (search ns a b)"
    and "Q acc \<or> (acc = PosInf
        \<and> (\<exists>l\<in>set ls. applyMove s (arr (normalizeLine l)) (currentPlayer s) \<noteq> None))"
  shows "Q (minLoop search s ls alpha beta acc)"
  using assms
proof (induction ls arbitrary: beta acc)
  case Nil
  then show ?case by simp
next
  case (Cons l ls)
  have child: "Q (search ns a b)"
    if "l' \<in> set ls" and "applyMove s (arr (normalizeLine l')) (currentPlayer s) = Some ns"
    for l' ns a b
    using Cons.prems(1) [of l' ns a b] that by simp
  show ?case
  proof (cases "applyMove s (arr (normalizeLine l)) (currentPlayer s)")
    case None
    with Cons.prems(2) have "Q acc \<or> (acc = PosInf
        \<and> (\<exists>l\<in>set ls. applyMove s (arr (normalizeLine l)) (currentPlayer s) \<noteq> None))"
      by auto
    from Cons.IH [OF child this] None show ?thesis by simp
  next
    case (Some ns)
    from Cons.prems(1) [of l ns alpha beta] Some have v: "Q (search ns alpha beta)" by simp
    have "Q (jsMin acc (search ns alpha beta))"
    proof (cases "Q acc")
      case True
      with v jsMin_cases [of acc "search ns alpha beta"] show ?thesis by auto
    next
      case False
      with Cons.prems(2) have "acc = PosInf" by blast
      with v show ?thesis by simp
    qed
    then have acc': "Q (jsMin acc (search ns alpha beta)) \<or> (jsMin acc (search ns alpha beta) = PosInf
        \<and> (\<exists>l\<in>set ls. applyMove s (arr (normalizeLine l)) (currentPlayer s) \<noteq> None))"
      by simp
    from Cons.IH [OF child acc'] \<open>Q (jsMin acc (search ns alpha beta))\<close> Some
    show ?thesis by (simp add: Let_def)
  qed
qed

lemma minimax_leaf:
  assumes "wellFormed g n s" and "0 \<le> g"
  shows "\<exists>u. reaches s u \<and> wellFormed g n u
     \<and> (gameOver u \<or> length (lines u) = length (lines s) + d)
     \<and> length (lines u) \<le> length (lines s) + d
     \<and> minimax s d alpha beta isMax ai = evaluate u ai"
  using assms(1)
proof (induction d arbitrary: s alpha beta isMax)
  case 0
  then show ?case using reaches.here [of s] by auto
next
  case (Suc d)
  let ?Q = "\<lambda>v. \<exists>u. reaches s u \<and> wellFormed g n u
     \<and> (gameOver u \<or> length (lines u) = length (lines s) + Suc d)
     \<and> length (lines u) \<le> length (lines s) + Suc d
     \<and> v = evaluate u ai"
  let ?search = "\<lambda>newState alpha' beta'.
      minimax newState d alpha' beta' (currentPlayer newState = ai) ai"
  have self: "?Q (evaluate s ai)" if "gameOver s"
    using that Suc.prems reaches.here [of s] by auto
  have child: "?Q (?search ns a b)"
    if "applyMove s (arr (normalizeLine l)) (currentPlayer s) = Some ns" for l ns a b
  proof -
    note wf' = wellFormed_applyMove [OF Suc.prems that]
    from applyMove_SomeD(5) [OF that] have len: "length (lines ns) = length (lines s) + 1"
      by simp
    from Suc.IH [OF wf', of a b "currentPlayer ns = ai"] obtain u where
      u: "reaches ns u" "wellFormed g n u"
        "gameOver u \<or> length (lines u) = length (lines ns) + d"
        "length (lines u) \<le> length (lines ns) + d"
        "?search ns a b = evaluate u ai" by blast
    from reaches_first [OF that u(1)] u(2-5) len show ?thesis by auto
  qed
  show ?case
  proof (cases "gameOver s \<or> length (getAvailableLines s) = 0")
    case True
    with wellFormed_no_moves_over [OF Suc.prems assms(2)] have go: "gameOver s" by auto
    from self [OF go] go show ?thesis by simp
  next
    case False
    then have "getAvailableLines s \<noteq> []" by simp
    then have "hd (getAvailableLines s) \<in> set (getAvailableLines s)" by (rule hd_in_set)
    with available_applyMove [of "hd (getAvailableLines s)" s] False
    have ex: "\<exists>l\<in>set (getAvailableLines s).
        applyMove s (arr (normalizeLine l)) (currentPlayer s) \<noteq> None" by force
    have mx: "?Q (maxLoop ?search s (getAvailableLines s) alpha beta NegInf)"
    proof (rule maxLoop_pick)
      fix l ns a b
      assume "applyMove s (arr (normalizeLine l)) (currentPlayer s) = Some ns"
      then show "?Q (?search ns a b)" by (rule child)
    qed (use ex in simp)
    have mn: "?Q (minLoop ?search s (getAvailableLines s) alpha beta PosInf)"
    proof (rule minLoop_pick)
      fix l ns a b
      assume "applyMove s (arr (normalizeLine l)) (currentPlayer s) = Some ns"
      then show "?Q (?search ns a b)" by (rule child)
    qed (use ex in simp)
    from False mx mn show ?thesis by (simp add: Let_def)
  qed
qed

lemma maxLoop_cong:
  assumes "\<And>l ns a b. l \<in> set ls
      \<Longrightarrow> applyMove s (arr (normalizeLine l)) (currentPlayer s) = Some ns \<Longrightarrow> f ns a b = h ns a b"
  shows "maxLoop f s ls alpha beta acc = maxLoop h s ls alpha beta acc"
  using assms
proof (induction ls arbitrary: alpha acc)
  case Nil
  then show ?case by simp
next
  case (Cons l ls)
  have rest: "maxLoop f s ls a beta c = maxLoop h s ls a beta c" for a c
  proof (rule Cons.IH)
    fix l' ns a b
    assume "l' \<in> set ls" and "applyMove s (arr (normalizeLine l')) (currentPlayer s) = Some ns"
    then show "f ns a b = h ns a b" using Cons.prems [of l' ns a b] by simp
  qed
  show ?case
  proof (cases "applyMove s (arr (normalizeLine l)) (currentPlayer s)")
    case None
    with rest show ?thesis by simp
  next
    case (Some ns)
    with Cons.prems [of l ns alpha beta] have "f ns alpha beta = h ns alpha beta" by simp
    with Some rest show ?thesis by (simp add: Let_def)
  qed
qed

lemma minLoop_cong:
  assumes "\<And>l ns a b. l \<in> set ls
      \<Longrightarrow> applyMove s (arr (normalizeLine l)) (currentPlayer s) = Some ns \<Longrightarrow> f ns a b = h ns a b"
  shows "minLoop f s ls alpha beta acc = minLoop h s ls alpha beta acc"
  using assms
proof (induction ls arbitrary: beta acc)
  case Nil
  then show ?case by simp
next
  case (Cons l ls)
  have rest: "minLoop f s ls alpha b c = minLoop h s ls alpha b c" for b c
  proof (rule Cons.IH)
    fix l' ns a b
    assume "l' \<in> set ls" and "applyMove s (arr (normalizeLine l')) (currentPlayer s) = Some ns"
    then show "f ns a b = h ns a b" using Cons.prems [of l' ns a b] by simp
  qed
  show ?case
  proof (cases "applyMove s (arr (normalizeLine l)) (currentPlayer s)")
    case None
    with rest show ?thesis by simp
  next
    case (Some ns)
    with Cons.prems [of l ns alpha beta] have "f ns alpha beta = h ns alpha beta" by simp
    with Some rest show ?thesis by (simp add: Let_def)
  qed
qed

lemma map_filter_cong:
  "(\<And>x. x \<in> set xs \<Longrightarrow> f x = h x) \<Longrightarrow> List.map_filter f xs = List.map_filter h xs"
  by (induction xs) (auto simp: map_filter_simps split: option.split)

lemma childValues_cong:
  assumes "\<And>l ns. l \<in> set (getAvailableLines s)
      \<Longrightarrow> applyMove s (arr (normalizeLine l)) (currentPlayer s) = Some ns
      \<Longrightarrow> minimax ns d NegInf PosInf False ai = minimax ns d' NegInf PosInf False ai"
  shows "childValues s ai d = childValues s ai d'"
  unfolding childValues_def
proof (rule map_filter_cong)
  fix l assume "l \<in> set (getAvailableLines s)"
  with assms [of l] show
    "(case applyMove s (arr (normalizeLine l)) (currentPlayer s) of None \<Rightarrow> None
      | Some newState \<Rightarrow> Some (l, minimax newState d NegInf PosInf False ai))
     = (case applyMove s (arr (normalizeLine l)) (currentPlayer s) of None \<Rightarrow> None
      | Some newState \<Rightarrow> Some (l, minimax newState d' NegInf PosInf False ai))"
    by (simp split: option.split)
qed

lemma childValues_mem:
  "x \<in> set (childValues s ai d) \<longleftrightarrow>
     (\<exists>l\<in>set (getAvailableLines s). \<exists>ns.
        applyMove s (arr (normalizeLine l)) (currentPlayer s) = Some ns
        \<and> x = (l, minimax ns d NegInf PosInf False ai))"
  unfolding childValues_def in_map_filter by (auto split: option.splits)

lemma minimax_depth:
  assumes "wellFormed g n s" and "0 \<le> g" and "length (getAvailableLines s) \<le> d"
  shows "minimax s d alpha beta isMax ai
     = minimax s (length (getAvailableLines s)) alpha beta isMax ai"
  using assms(1,3)
proof (induction d arbitrary: s alpha beta isMax)
  case 0
  then show ?case by simp
next
  case (Suc d)
  show ?case
  proof (cases "getAvailableLines s = []")
    case True
    then show ?thesis by simp
  next
    case False
    then obtain k where k: "length (getAvailableLines s) = Suc k"
      by (cases "getAvailableLines s") simp_all
    have child: "minimax ns d a b m ai = minimax ns k a b m ai"
      if "applyMove s (arr (normalizeLine l)) (currentPlayer s) = Some ns" for l ns a b m
    proof -
      from available_shrinks [OF that] k have len: "length (getAvailableLines ns) = k" by simp
      with Suc.prems(2) k have "length (getAvailableLines ns) \<le> d" by simp
      from Suc.IH [OF wellFormed_applyMove [OF Suc.prems(1) that] this] len
      show ?thesis by simp
    qed
    have mx: "maxLoop (\<lambda>newState alpha' beta'.
          minimax newState d alpha' beta' (currentPlayer newState = ai) ai)
          s (getAvailableLines s) alpha beta NegInf
        = maxLoop (\<lambda>newState alpha' beta'.
          minimax newState k alpha' beta' (currentPlayer newState = ai) ai)
          s (getAvailableLines s) alpha beta NegInf"
      by (rule maxLoop_cong) (rule child)
    have mn: "minLoop (\<lambda>newState alpha' beta'.
          minimax newState d alpha' beta' (currentPlayer newState = ai) ai)
          s (getAvailableLines s) alpha beta PosInf
        = minLoop (\<lambda>newState alpha' beta'.
          minimax newState k alpha' beta' (currentPlayer newState = ai) ai)
          s (getAvailableLines s) alpha beta PosInf"
      by (rule minLoop_cong) (rule child)
    from mx mn show ?thesis unfolding k by (simp add: Let_def)
  qed
qed

subsection \<open>The depth of the search\<close>

text \<open>
  Claim C8. \<open>minimax\<close> is defined by recursion on its depth argument, which each call
  lowers by one, so every call returns, and each successful move leaves exactly one
  available line fewer. In a state of a game on a grid of at least two dots a side with
  at least one player, started or not: a call with depth \<open>d\<close> returns the leaf value
  of a state reached by successful moves that is a finished game or lies exactly \<open>d\<close>
  moves below. When at most 12 lines are available, the children searched with the
  depth that \<open>hardAI\<close> passes, one less than the number of available lines, get the
  same values as with any greater depth, and the move of \<open>hardAI\<close> is the first best
  among them; each of them is the leaf value of a finished game, and every state as
  many moves below as there are available lines is a finished game. When more than 12
  lines are available, the move of \<open>hardAI\<close> is the first best among the children
  searched with depth 5, one for each available line; what each of them gets is the
  leaf value of an unfinished state exactly 6 moves below the root, and no state within
  6 moves is a finished game. For an AI player among the players, \<open>hardAI\<close> returns
  one of the available lines whenever there is one.
\<close>

theorem depth_policy:
  assumes "inGame g n s" and "2 \<le> g" and "1 \<le> n"
  shows "(\<forall>line p s'. applyMove s line p = Some s' \<longrightarrow>
          length (getAvailableLines s') + 1 = length (getAvailableLines s))
     \<and> (\<forall>d alpha beta isMax. \<exists>u. reaches s u
          \<and> (gameOver u \<or> length (lines u) = length (lines s) + d)
          \<and> length (lines u) \<le> length (lines s) + d
          \<and> minimax s d alpha beta isMax ai = evaluate u ai)
     \<and> (length (getAvailableLines s) \<le> 12 \<longrightarrow>
          (\<forall>d\<ge>length (getAvailableLines s) - 1.
             childValues s ai d = childValues s ai (length (getAvailableLines s) - 1)
             \<and> hardAI s ai = firstBest (childValues s ai d) NegInf None
             \<and> (\<forall>x\<in>set (childValues s ai d). \<exists>u. reaches s u \<and> gameOver u
                   \<and> snd x = evaluate u ai))
          \<and> (\<forall>u. reaches s u
                \<and> length (lines u) = length (lines s) + length (getAvailableLines s)
                \<longrightarrow> gameOver u))
     \<and> (12 < length (getAvailableLines s) \<longrightarrow>
          hardAI s ai = firstBest (childValues s ai 5) NegInf None
          \<and> map fst (childValues s ai 5) = getAvailableLines s
          \<and> (\<forall>x\<in>set (childValues s ai 5). \<exists>u. reaches s u \<and> \<not> gameOver u
                \<and> length (lines u) = length (lines s) + 6
                \<and> snd x = evaluate u ai)
          \<and> (\<forall>u. reaches s u \<and> length (lines u) \<le> length (lines s) + 6
                \<longrightarrow> \<not> gameOver u))
     \<and> (0 \<le> ai \<and> ai < n \<and> getAvailableLines s \<noteq> [] \<longrightarrow>
          (\<exists>l\<in>set (getAvailableLines s). hardAI s ai = Some l))"
proof -
  let ?av = "getAvailableLines s"
  let ?k = "length ?av"
  note wf = inGame_wellFormed [OF assms]
  from assms(2) have g: "0 \<le> g" by simp
  note count = wellFormed_available_count [OF wf g]
  have shrink: "\<forall>line p s'. applyMove s line p = Some s' \<longrightarrow>
      length (getAvailableLines s') + 1 = ?k"
    using available_shrinks by blast
  have leaf: "\<forall>d alpha beta isMax. \<exists>u. reaches s u
      \<and> (gameOver u \<or> length (lines u) = length (lines s) + d)
      \<and> length (lines u) \<le> length (lines s) + d
      \<and> minimax s d alpha beta isMax ai = evaluate u ai"
    using minimax_leaf [OF wf g] by blast
  have below: "gameOver u \<longleftrightarrow> length (lines u) = length (lines s) + ?k"
    if "reaches s u" for u
  proof -
    from reaches_wellFormed [OF that wf] have wu: "wellFormed g n u" .
    from wellFormedD(12) [OF wu] count show ?thesis by auto
  qed
  have cval: "\<exists>u. reaches s u
      \<and> (gameOver u \<or> length (lines u) = length (lines s) + Suc d)
      \<and> length (lines u) \<le> length (lines s) + Suc d
      \<and> snd x = evaluate u ai"
    if "x \<in> set (childValues s ai d)" for x d
  proof -
    from that obtain l ns where
      am: "applyMove s (arr (normalizeLine l)) (currentPlayer s) = Some ns"
      and x: "x = (l, minimax ns d NegInf PosInf False ai)"
      unfolding childValues_mem by blast
    from applyMove_SomeD(5) [OF am] have "length (lines ns) = length (lines s) + 1" by simp
    with minimax_leaf [OF wellFormed_applyMove [OF wf am] g, of d NegInf PosInf False ai]
    obtain u where u: "reaches ns u"
      "gameOver u \<or> length (lines u) = length (lines s) + Suc d"
      "length (lines u) \<le> length (lines s) + Suc d"
      "minimax ns d NegInf PosInf False ai = evaluate u ai" by auto
    from reaches_first [OF am u(1)] u(2-4) x show ?thesis by auto
  qed
  have policy: "hardAI s ai = firstBest (childValues s ai
      ((if ?k \<le> 12 then ?k else 6) - 1)) NegInf None"
    unfolding hardAI_firstBest rootValues_childValues ..
  have small: "(\<forall>d\<ge>?k - 1. childValues s ai d = childValues s ai (?k - 1)
          \<and> hardAI s ai = firstBest (childValues s ai d) NegInf None
          \<and> (\<forall>x\<in>set (childValues s ai d). \<exists>u. reaches s u \<and> gameOver u
                \<and> snd x = evaluate u ai))
      \<and> (\<forall>u. reaches s u \<and> length (lines u) = length (lines s) + ?k \<longrightarrow> gameOver u)"
    if k: "?k \<le> 12"
  proof (intro conjI allI impI ballI)
    fix d assume d: "?k - 1 \<le> d"
    show same: "childValues s ai d = childValues s ai (?k - 1)"
    proof (rule childValues_cong)
      fix l ns
      assume am: "applyMove s (arr (normalizeLine l)) (currentPlayer s) = Some ns"
      from available_shrinks [OF am] have len: "length (getAvailableLines ns) = ?k - 1" by simp
      with d have "length (getAvailableLines ns) \<le> d" by simp
      from minimax_depth [OF wellFormed_applyMove [OF wf am] g this] len
      show "minimax ns d NegInf PosInf False ai = minimax ns (?k - 1) NegInf PosInf False ai"
        by simp
    qed
    from same policy k show "hardAI s ai = firstBest (childValues s ai d) NegInf None"
      by simp
  next
    fix d x assume d: "?k - 1 \<le> d" and x: "x \<in> set (childValues s ai d)"
    from cval [OF x] obtain u where u: "reaches s u"
      "gameOver u \<or> length (lines u) = length (lines s) + Suc d"
      "length (lines u) \<le> length (lines s) + Suc d"
      "snd x = evaluate u ai" by blast
    have "gameOver u"
    proof (rule ccontr)
      assume no: "\<not> gameOver u"
      with u(2) have eq: "length (lines u) = length (lines s) + Suc d" by simp
      from reaches_wellFormed [OF u(1) wf] have wu: "wellFormed g n u" .
      from wellFormed_available_count [OF wu g] count eq d
      have "length (getAvailableLines u) = 0 \<and> Suc d = ?k" by linarith
      with eq below [OF u(1)] no show False by simp
    qed
    with u(1,4) show "\<exists>u. reaches s u \<and> gameOver u \<and> snd x = evaluate u ai" by blast
  next
    fix u assume "reaches s u \<and> length (lines u) = length (lines s) + ?k"
    with below show "gameOver u" by blast
  qed
  have large: "hardAI s ai = firstBest (childValues s ai 5) NegInf None
      \<and> map fst (childValues s ai 5) = ?av
      \<and> (\<forall>x\<in>set (childValues s ai 5). \<exists>u. reaches s u \<and> \<not> gameOver u
            \<and> length (lines u) = length (lines s) + 6
            \<and> snd x = evaluate u ai)
      \<and> (\<forall>u. reaches s u \<and> length (lines u) \<le> length (lines s) + 6 \<longrightarrow> \<not> gameOver u)"
    if k: "12 < ?k"
  proof (intro conjI allI impI ballI)
    from policy k show "hardAI s ai = firstBest (childValues s ai 5) NegInf None" by simp
  next
    from k have "hd ?av \<in> set ?av" by (cases ?av) simp_all
    from wellFormed_available_not_over [OF wf this]
    show "map fst (childValues s ai 5) = ?av" by (simp add: childValues_moves)
  next
    fix x assume x: "x \<in> set (childValues s ai 5)"
    from cval [OF x] obtain u where u: "reaches s u"
      "gameOver u \<or> length (lines u) = length (lines s) + 6"
      "length (lines u) \<le> length (lines s) + 6"
      "snd x = evaluate u ai" by auto
    from below [OF u(1)] u(3) k have "\<not> gameOver u" by simp
    with u show "\<exists>u. reaches s u \<and> \<not> gameOver u
        \<and> length (lines u) = length (lines s) + 6 \<and> snd x = evaluate u ai" by blast
  next
    fix u assume "reaches s u \<and> length (lines u) \<le> length (lines s) + 6"
    with below [of u] k show "\<not> gameOver u" by simp
  qed
  have returns: "0 \<le> ai \<and> ai < n \<and> ?av \<noteq> [] \<longrightarrow> (\<exists>l\<in>set ?av. hardAI s ai = Some l)"
  proof
    assume a: "0 \<le> ai \<and> ai < n \<and> ?av \<noteq> []"
    then have "hd ?av \<in> set ?av" by simp
    from wellFormed_available_not_over [OF wf this] have no: "\<not> gameOver s" .
    from a wellFormedD(3) [OF wf] have "ai < int (length (scores s))" by simp
    with a no show "\<exists>l\<in>set ?av. hardAI s ai = Some l"
      by (intro hardAI_returns) simp_all
  qed
  from shrink leaf small large returns show ?thesis by (intro conjI impI) blast+
qed

theorem depth_policy_witness:
  "length (getAvailableLines (the (playMoves (startGame (the (createInitialState 3 2)))
        [(1, 0, 2, 0), (2, 0, 2, 1), (0, 0, 0, 1), (1, 1, 2, 1), (0, 2, 1, 2),
         (2, 1, 2, 2), (0, 1, 1, 1), (0, 1, 0, 2), (1, 1, 1, 2)]))) = 3
   \<and> childValues (the (playMoves (startGame (the (createInitialState 3 2)))
        [(1, 0, 2, 0), (2, 0, 2, 1), (0, 0, 0, 1), (1, 1, 2, 1), (0, 2, 1, 2),
         (2, 1, 2, 2), (0, 1, 1, 1), (0, 1, 0, 2), (1, 1, 1, 2)])) 0 2
       = [((0, 0, 1, 0), Fin (- 2)), ((1, 2, 2, 2), Fin 4), ((1, 0, 1, 1), Fin 4)]
   \<and> hardAI (the (playMoves (startGame (the (createInitialState 3 2)))
        [(1, 0, 2, 0), (2, 0, 2, 1), (0, 0, 0, 1), (1, 1, 2, 1), (0, 2, 1, 2),
         (2, 1, 2, 2), (0, 1, 1, 1), (0, 1, 0, 2), (1, 1, 1, 2)])) 0 = Some (1, 2, 2, 2)
   \<and> firstBest (childValues (the (playMoves (startGame (the (createInitialState 3 2)))
        [(1, 0, 2, 0), (2, 0, 2, 1), (0, 0, 0, 1), (1, 1, 2, 1), (0, 2, 1, 2),
         (2, 1, 2, 2), (0, 1, 1, 1), (0, 1, 0, 2), (1, 1, 1, 2)])) 0 11) NegInf None
       = Some (1, 2, 2, 2)
   \<and> (\<exists>u. reaches (the (playMoves (startGame (the (createInitialState 3 2)))
        [(1, 0, 2, 0), (2, 0, 2, 1), (0, 0, 0, 1), (1, 1, 2, 1), (0, 2, 1, 2),
         (2, 1, 2, 2), (0, 1, 1, 1), (0, 1, 0, 2), (1, 1, 1, 2)])) u
         \<and> gameOver u \<and> evaluate u 0 = Fin (- 2))
   \<and> length (getAvailableLines (startGame (the (createInitialState 4 2)))) = 24
   \<and> hardAI (startGame (the (createInitialState 4 2))) 1
       = firstBest (childValues (startGame (the (createInitialState 4 2))) 1 5) NegInf None
   \<and> map fst (childValues (startGame (the (createInitialState 4 2))) 1 5)
       = getAvailableLines (startGame (the (createInitialState 4 2)))
   \<and> (\<exists>x\<in>set (childValues (startGame (the (createInitialState 4 2))) 1 5).
         \<exists>u. reaches (startGame (the (createInitialState 4 2))) u \<and> \<not> gameOver u
           \<and> length (lines u) = 6 \<and> snd x = evaluate u 1)
   \<and> (\<exists>l\<in>set (getAvailableLines (startGame (the (createInitialState 4 2)))).
         hardAI (startGame (the (createInitialState 4 2))) 1 = Some l)"
proof -
  define s where "s = the (playMoves (startGame (the (createInitialState 3 2)))
        [(1, 0, 2, 0), (2, 0, 2, 1), (0, 0, 0, 1), (1, 1, 2, 1), (0, 2, 1, 2),
         (2, 1, 2, 2), (0, 1, 1, 1), (0, 1, 0, 2), (1, 1, 1, 2)])"
  define t where "t = startGame (the (createInitialState 4 2))"
  have init: "createInitialState 3 2 = Some (the (createInitialState 3 2))"
    by (simp add: createInitialState_def)
  have ok: "playMoves (startGame (the (createInitialState 3 2)))
        [(1, 0, 2, 0), (2, 0, 2, 1), (0, 0, 0, 1), (1, 1, 2, 1), (0, 2, 1, 2),
         (2, 1, 2, 2), (0, 1, 1, 1), (0, 1, 0, 2), (1, 1, 1, 2)] \<noteq> None"
    by (simp add: game_eval)
  have ing: "inGame 3 2 s"
    unfolding s_def by (rule inGame_playMoves [OF init ok])
  have k3: "length (getAvailableLines s) = 3"
    unfolding s_def by (simp add: game_eval search_eval)
  have cv: "childValues s 0 2
      = [((0, 0, 1, 0), Fin (- 2)), ((1, 2, 2, 2), Fin 4), ((1, 0, 1, 1), Fin 4)]"
    unfolding s_def by (simp add: game_eval search_eval childValues_def)
  have two: "(2::int) \<le> 3" "(1::int) \<le> 2" by simp_all
  note dp = depth_policy [OF ing two, of 0]
  have k: "length (getAvailableLines s) \<le> 12" "length (getAvailableLines s) - 1 \<le> 2"
    "length (getAvailableLines s) - 1 \<le> 11"
    unfolding k3 by simp_all
  from dp k(1,2) have "hardAI s 0 = firstBest (childValues s 0 2) NegInf None"
    by blast
  then have h: "hardAI s 0 = Some (1, 2, 2, 2)"
    unfolding cv by simp
  from dp k(1,3) have "hardAI s 0 = firstBest (childValues s 0 11) NegInf None"
    by blast
  with h have deep: "firstBest (childValues s 0 11) NegInf None = Some (1, 2, 2, 2)"
    by simp
  have "((0, 0, 1, 0), Fin (- 2)) \<in> set (childValues s 0 2)"
    unfolding cv by simp
  with dp k(1,2) have "\<exists>u. reaches s u \<and> gameOver u
      \<and> snd ((0::int, 0::int, 1::int, 0::int), Fin (- 2)) = evaluate u 0"
    by blast
  then have leaf: "\<exists>u. reaches s u \<and> gameOver u \<and> evaluate u 0 = Fin (- 2)"
    by auto
  have init4: "createInitialState 4 2 = Some (the (createInitialState 4 2))"
    by (simp add: createInitialState_def)
  have ing4: "inGame 4 2 t"
    unfolding t_def by (rule inGame_started [OF init4])
  have len4: "length (getAvailableLines t) = 24"
    unfolding t_def
    by (simp add: getAvailableLines_filter allLines_def upto_rec1 createInitialState_def
        startGame_def)
  have lines4: "length (lines t) + 6 = 6"
    unfolding t_def by (simp add: createInitialState_def startGame_def)
  have four: "(2::int) \<le> 4" "(1::int) \<le> 2" by simp_all
  note dp4 = depth_policy [OF ing4 four, of 1]
  have k4: "12 < length (getAvailableLines t)" "getAvailableLines t \<noteq> []"
    using len4 by auto
  from dp4 k4 have cap: "hardAI t 1 = firstBest (childValues t 1 5) NegInf None"
    by blast
  from dp4 k4 have moves: "map fst (childValues t 1 5) = getAvailableLines t"
    by blast
  with k4(2) have "childValues t 1 5 \<noteq> []" by auto
  then have x: "hd (childValues t 1 5) \<in> set (childValues t 1 5)"
    by (rule hd_in_set)
  with dp4 k4 have "\<exists>u. reaches t u \<and> \<not> gameOver u
      \<and> length (lines u) = length (lines t) + 6
      \<and> snd (hd (childValues t 1 5)) = evaluate u 1"
    by blast
  with x have leaf4: "\<exists>x\<in>set (childValues t 1 5).
      \<exists>u. reaches t u \<and> \<not> gameOver u \<and> length (lines u) = 6 \<and> snd x = evaluate u 1"
    unfolding lines4 by blast
  have "(0::int) \<le> 1 \<and> (1::int) < 2 \<and> getAvailableLines t \<noteq> []"
    using k4 by simp
  with dp4 have ret: "\<exists>l\<in>set (getAvailableLines t). hardAI t 1 = Some l"
    by blast
  from k3 cv h deep leaf len4 cap moves leaf4 ret show ?thesis
    unfolding s_def t_def by (intro conjI)
qed

end
